theory Spec2Isabelle
  imports Main "HOL-Library.Log_Nat"
begin

section \<open>Python floats\<close>

text \<open>
  A Python \<^verbatim>\<open>float\<close> is an IEEE 754 binary64 number. A finite one is kept as the
  rational it denotes; the two infinities and NaN are separate values. The sign of zero
  is not kept: \<^verbatim>\<open>calculate_mtl\<close> only adds, multiplies, divides and compares, it never
  divides by a zero, and \<^verbatim>\<open>-0.0 <= 0\<close> holds as \<^verbatim>\<open>0.0 <= 0\<close> does.
\<close>

datatype double = Finite rat | PInf | NInf | NaN

text \<open>\<open>ilog2 q\<close> is the binary exponent of a positive rational: \<open>2 ^ ilog2 q \<le> q < 2 ^ (ilog2 q + 1)\<close>.\<close>

definition ilog2 :: "rat \<Rightarrow> int" where
  "ilog2 q = (if 1 \<le> q then bitlen \<lfloor>q\<rfloor> - 1 else - bitlen (\<lceil>1 / q\<rceil> - 1))"

text \<open>Rounding to the nearest integer, ties to the even one.\<close>

definition round_half_even :: "rat \<Rightarrow> int" where
  "round_half_even x =
     (let f = \<lfloor>x\<rfloor>; d = x - of_int f
      in if d < 1 / 2 then f else if 1 / 2 < d then f + 1 else if even f then f else f + 1)"

text \<open>
  Rounding a rational to binary64: 53 significant bits, the least quantum is \<open>2 ^ -1074\<close>
  (subnormal numbers), and a result of magnitude \<open>2 ^ 1024\<close> or more is an infinity.
\<close>

definition least_exp :: int where
  "least_exp = - 1074"

definition overflow_threshold :: rat where
  "overflow_threshold = 2 powi 1024"

definition round_double :: "rat \<Rightarrow> double" where
  "round_double q =
     (if q = 0 then Finite 0
      else let e = max (ilog2 \<bar>q\<bar> - 52) least_exp;
               r = of_int (round_half_even (q / 2 powi e)) * 2 powi e
           in if overflow_threshold \<le> r then PInf
              else if r \<le> - overflow_threshold then NInf
              else Finite r)"

text \<open>A decimal literal of the source denotes the nearest binary64 number.\<close>

definition float_lit :: "rat \<Rightarrow> double" where
  "float_lit q = round_double q"

text \<open>The values a \<^verbatim>\<open>float\<close> can hold: a \<open>Finite q\<close> is one iff rounding leaves \<open>q\<close> alone.\<close>

fun is_double :: "double \<Rightarrow> bool" where
  "is_double (Finite q) = (round_double q = Finite q)"
| "is_double _ = True"

fun isnan :: "double \<Rightarrow> bool" where
  "isnan NaN = True"
| "isnan _ = False"

text \<open>\<^verbatim>\<open>x <= y\<close> and \<^verbatim>\<open>x == y\<close>: every comparison with NaN is false.\<close>

fun fle :: "double \<Rightarrow> double \<Rightarrow> bool" where
  "fle NaN _ = False"
| "fle _ NaN = False"
| "fle NInf _ = True"
| "fle _ PInf = True"
| "fle PInf _ = False"
| "fle _ NInf = False"
| "fle (Finite a) (Finite b) = (a \<le> b)"

fun feq :: "double \<Rightarrow> double \<Rightarrow> bool" where
  "feq NaN _ = False"
| "feq _ NaN = False"
| "feq (Finite a) (Finite b) = (a = b)"
| "feq PInf PInf = True"
| "feq NInf NInf = True"
| "feq _ _ = False"

text \<open>\<^verbatim>\<open>x + y\<close>: the exact sum, rounded; \<open>inf + -inf\<close> is NaN.\<close>

fun fadd :: "double \<Rightarrow> double \<Rightarrow> double" where
  "fadd NaN _ = NaN"
| "fadd _ NaN = NaN"
| "fadd PInf NInf = NaN"
| "fadd NInf PInf = NaN"
| "fadd PInf _ = PInf"
| "fadd _ PInf = PInf"
| "fadd NInf _ = NInf"
| "fadd _ NInf = NInf"
| "fadd (Finite a) (Finite b) = round_double (a + b)"

text \<open>\<^verbatim>\<open>x * y\<close>: the exact product, rounded; \<open>inf * 0\<close> is NaN.\<close>

definition signed_inf :: "rat \<Rightarrow> double" where
  "signed_inf a = (if a = 0 then NaN else if 0 < a then PInf else NInf)"

fun fmul :: "double \<Rightarrow> double \<Rightarrow> double" where
  "fmul NaN _ = NaN"
| "fmul _ NaN = NaN"
| "fmul (Finite a) (Finite b) = round_double (a * b)"
| "fmul (Finite a) PInf = signed_inf a"
| "fmul (Finite a) NInf = signed_inf (- a)"
| "fmul PInf (Finite b) = signed_inf b"
| "fmul NInf (Finite b) = signed_inf (- b)"
| "fmul PInf PInf = PInf"
| "fmul NInf NInf = PInf"
| "fmul PInf NInf = NInf"
| "fmul NInf PInf = NInf"

section \<open>Exceptions and log records\<close>

datatype pyobj = Str string | Unhashable

text \<open>
  The text of an exception or of a log record: literal pieces, and the \<^verbatim>\<open>repr\<close> of a
  set, whose element order Python does not fix.
\<close>

datatype msg_part = Lit string | Set_repr "pyobj set"

datatype error =
    TypeError "msg_part list"
  | ValueError "msg_part list"
  | ZeroDivisionError "msg_part list"
  | OverflowError "msg_part list"

datatype log_record = Warning "msg_part list"

text \<open>\<^verbatim>\<open>x / y\<close> on Python floats raises on a zero divisor; \<open>inf / inf\<close> is NaN.\<close>

fun fdiv :: "double \<Rightarrow> double \<Rightarrow> error + double" where
  "fdiv x (Finite b) =
     (if b = 0 then Inl (ZeroDivisionError [Lit ''float division by zero''])
      else case x of
             NaN \<Rightarrow> Inr NaN
           | PInf \<Rightarrow> Inr (signed_inf b)
           | NInf \<Rightarrow> Inr (signed_inf (- b))
           | Finite a \<Rightarrow> Inr (round_double (a / b)))"
| "fdiv NaN _ = Inr NaN"
| "fdiv _ NaN = Inr NaN"
| "fdiv (Finite a) _ = Inr (Finite 0)"
| "fdiv _ _ = Inr NaN"

section \<open>DataFrames\<close>

text \<open>
  A cell of the column \<^verbatim>\<open>species_name\<close> is a string, or an unhashable object such as
  a list (any other hashable object behaves as a string that is no key of the table).
  A cell of the column \<^verbatim>\<open>catch_kg\<close> is
  \<^item> \<open>Number d\<close> when it is the float \<open>d\<close>, or an object that \<^verbatim>\<open>pd.to_numeric\<close> reads as the
    float \<open>d\<close>: a text that parses, a missing value (\<open>Number NaN\<close>);
  \<^item> \<open>Py_int n\<close> when it is the Python int \<open>n\<close>, of any size (in the loop an int in the
    range of a float counts as the float nearest to it);
  \<^item> \<open>NonNumeric\<close> when it is a text that does not parse;
  \<^item> \<open>Py_complex\<close> when it is a complex number (other than a complex NaN, which
    \<^verbatim>\<open>pd.isna\<close> does not tell from the float NaN).
\<close>

datatype cell = Number double | Py_int int | NonNumeric | Py_complex

text \<open>
  A cell of a column that \<^verbatim>\<open>pd.to_numeric\<close> has returned: the column is one of floats or
  one of complex numbers, where a NaN is written \<open>Float64 NaN\<close> in both.
\<close>

datatype numeric = Float64 double | Complex128

record row =
  species_name :: pyobj
  catch_kg :: cell

text \<open>
  A DataFrame: its column labels in order, where a label may occur more than once, and for
  each row the cells under \<^verbatim>\<open>species_name\<close> and \<^verbatim>\<open>catch_kg\<close>. The cells are only read
  when both labels are present, and the cell under a label only when the label occurs
  once: selecting a repeated label gives a DataFrame or a Series, not a cell.
\<close>

record dataframe =
  columns :: "string list"
  rows :: "row list"

text \<open>
  The state a call can touch: the DataFrame objects by address, the module's global
  dictionary \<^verbatim>\<open>TROPHIC_LEVELS\<close>, and the records emitted through \<^verbatim>\<open>logger\<close>.
\<close>

record state =
  heap :: "dataframe list"
  trophic_levels :: "(string \<times> double) list"
  logger :: "log_record list"

text \<open>The argument of a call: a reference to a DataFrame object, or any other object.\<close>

datatype pyarg = DataFrame_at nat | Non_DataFrame

section \<open>The module \<^verbatim>\<open>metrics\<close>\<close>

definition TROPHIC_LEVELS :: "(string \<times> double) list" where
  "TROPHIC_LEVELS =
     [(''Atlantic cod'', float_lit (35 / 10)),
      (''Pacific sardine'', float_lit (28 / 10)),
      (''Bluefin tuna'', float_lit (42 / 10)),
      (''Anchovy'', float_lit (27 / 10)),
      (''Mackerel'', float_lit (32 / 10)),
      (''Squid'', float_lit (30 / 10)),
      (''Shrimp'', float_lit (25 / 10)),
      (''Lobster'', float_lit (29 / 10)),
      (''Salmon'', float_lit (38 / 10)),
      (''Halibut'', float_lit (36 / 10)),
      (''Haddock'', float_lit (33 / 10)),
      (''Plaice'', float_lit (31 / 10)),
      (''Herring'', float_lit (29 / 10)),
      (''Swordfish'', float_lit (44 / 10)),
      (''Mahi-mahi'', float_lit (37 / 10))]"

definition required_cols :: "string list" where
  "required_cols = [''species_name'', ''catch_kg'']"

definition not_dataframe_error :: error where
  "not_dataframe_error = TypeError [Lit ''Input must be a pandas DataFrame'']"

definition missing_columns_error :: error where
  "missing_columns_error =
     ValueError [Lit ''DataFrame must contain columns '', Set_repr (Str ` set required_cols)]"

definition no_valid_catch_error :: error where
  "no_valid_catch_error =
     ValueError [Lit ''No valid catch data with known trophic levels. Cannot compute MTL.'']"

text \<open>
  The \<^verbatim>\<open>TypeError\<close> of hashing an unhashable object; its message goes on with the type
  of the object.
\<close>

definition unhashable_error :: error where
  "unhashable_error = TypeError [Lit ''unhashable type'']"

definition not_comparable_error :: error where
  "not_comparable_error =
     TypeError [Lit ''<= not supported between instances of complex and int'']"

definition not_series_error :: error where
  "not_series_error = TypeError [Lit ''arg must be a list, tuple, 1-d array, or Series'']"

definition overflow_error :: error where
  "overflow_error = OverflowError [Lit ''int too large to convert to float'']"

definition missing_species_warning :: "pyobj list \<Rightarrow> log_record" where
  "missing_species_warning missing_species =
     Warning [Lit ''Species not found in trophic level dictionary: '',
              Set_repr (set missing_species),
              Lit ''. These species are excluded from MTL calculation.'']"

text \<open>
  \<^verbatim>\<open>pd.to_numeric(column, errors="coerce")\<close> on the cells of a column. Every cell is
  converted to a float: what does not parse becomes NaN, and a Python int becomes the
  nearest float, which raises \<^verbatim>\<open>OverflowError\<close> when the int is outside the range of a
  float, whatever \<^verbatim>\<open>errors\<close> is. A complex number is kept, and one of them makes the
  returned column a complex one: all its cells are then complex numbers.
\<close>

fun overflows :: "cell \<Rightarrow> bool" where
  "overflows (Py_int n) = (case round_double (of_int n) of Finite q \<Rightarrow> False | _ \<Rightarrow> True)"
| "overflows _ = False"

fun convert :: "cell \<Rightarrow> numeric" where
  "convert (Number d) = Float64 d"
| "convert (Py_int n) = Float64 (round_double (of_int n))"
| "convert NonNumeric = Float64 NaN"
| "convert Py_complex = Complex128"

fun as_complex :: "numeric \<Rightarrow> numeric" where
  "as_complex (Float64 d) = (if isnan d then Float64 NaN else Complex128)"
| "as_complex Complex128 = Complex128"

definition to_numeric :: "cell list \<Rightarrow> error + numeric list" where
  "to_numeric cells =
     (if list_ex overflows cells then Inl overflow_error
      else if list_ex (\<lambda>c. c = Py_complex) cells then Inr (map (\<lambda>c. as_complex (convert c)) cells)
      else Inr (map convert cells))"

text \<open>\<^verbatim>\<open>catch_df["catch_kg"] = column\<close>: every row gets its cell of the new column.\<close>

fun as_cell :: "numeric \<Rightarrow> cell" where
  "as_cell (Float64 d) = Number d"
| "as_cell Complex128 = Py_complex"

definition setitem_catch_kg :: "dataframe \<Rightarrow> numeric list \<Rightarrow> dataframe" where
  "setitem_catch_kg df col =
     df\<lparr>rows := map (\<lambda>(r, c). r\<lparr>catch_kg := as_cell c\<rparr>) (zip (rows df) col)\<rparr>"

text \<open>
  \<^verbatim>\<open>row["species_name"]\<close> is the cell when the label occurs once; when the label is
  repeated it is a Series, which is unhashable.
\<close>

definition getitem_species_name :: "dataframe \<Rightarrow> row \<Rightarrow> pyobj" where
  "getitem_species_name df r =
     (if count_list (columns df) ''species_name'' = 1 then species_name r else Unhashable)"

text \<open>
  The rows as the loop reads them from \<^verbatim>\<open>catch_df.iterrows()\<close>: \<^verbatim>\<open>row["species_name"]\<close>
  and \<^verbatim>\<open>row["catch_kg"]\<close>, the latter a cell of the column that was just assigned.
\<close>

definition iterrows :: "dataframe \<Rightarrow> numeric list \<Rightarrow> (pyobj \<times> numeric) list" where
  "iterrows df col = zip (map (getitem_species_name df) (rows df)) col"

text \<open>
  The loop, with the three local variables it updates. \<^verbatim>\<open>pd.isna(catch)\<close> comes first;
  \<^verbatim>\<open>catch <= 0\<close> raises for a complex number. \<^verbatim>\<open>species in TROPHIC_LEVELS\<close> hashes the
  species, which raises for an unhashable object; the test and the lookup
  \<^verbatim>\<open>TROPHIC_LEVELS[species]\<close> are one \<open>map_of\<close>.
\<close>

fun iterrows_loop ::
  "(string \<times> double) list \<Rightarrow> (pyobj \<times> numeric) list \<Rightarrow> double \<times> double \<times> pyobj list
     \<Rightarrow> error + double \<times> double \<times> pyobj list" where
  "iterrows_loop tls [] acc = Inr acc"
| "iterrows_loop tls ((species, c) # rs) (total_catch, weighted_sum, missing_species) =
     (case c of
        Complex128 \<Rightarrow> Inl not_comparable_error
      | Float64 catch \<Rightarrow>
          if isnan catch \<or> fle catch (Finite 0)
          then iterrows_loop tls rs (total_catch, weighted_sum, missing_species)
          else (case species of
                  Unhashable \<Rightarrow> Inl unhashable_error
                | Str name \<Rightarrow>
                    (case map_of tls name of
                       Some level \<Rightarrow>
                         iterrows_loop tls rs
                           (fadd total_catch catch, fadd weighted_sum (fmul level catch),
                            missing_species)
                     | None \<Rightarrow>
                         iterrows_loop tls rs
                           (total_catch, weighted_sum, missing_species @ [Str name]))))"

text \<open>Lines 80 to 92: the warning, the check of the total, the division.\<close>

definition finish :: "state \<Rightarrow> double \<times> double \<times> pyobj list \<Rightarrow> (error + double) \<times> state" where
  "finish s acc =
     (case acc of (total_catch, weighted_sum, missing_species) \<Rightarrow>
        let s' = (if missing_species \<noteq> []
                  then s\<lparr>logger := logger s @ [missing_species_warning missing_species]\<rparr>
                  else s)
        in if feq total_catch (Finite 0) then (Inl no_valid_catch_error, s')
           else (fdiv weighted_sum total_catch, s'))"

text \<open>
  \<^verbatim>\<open>calculate_mtl\<close>. The copy is a new object at the first free address, and the
  assignment to its column \<^verbatim>\<open>catch_kg\<close> is a write at that address. An address outside
  the heap refers to no DataFrame. On line 61, \<^verbatim>\<open>catch_df["catch_kg"]\<close> is a DataFrame when
  the label is repeated, which \<^verbatim>\<open>pd.to_numeric\<close> rejects with a \<^verbatim>\<open>TypeError\<close>; this and
  the \<^verbatim>\<open>OverflowError\<close> come after the copy and before the loop.
\<close>

definition calculate_mtl :: "pyarg \<Rightarrow> state \<Rightarrow> (error + double) \<times> state" where
  "calculate_mtl catch_df s =
     (case catch_df of
        Non_DataFrame \<Rightarrow> (Inl not_dataframe_error, s)
      | DataFrame_at a \<Rightarrow>
          if length (heap s) \<le> a then (Inl not_dataframe_error, s)
          else if \<not> set required_cols \<subseteq> set (columns (heap s ! a))
          then (Inl missing_columns_error, s)
          else
            let c = length (heap s);
                s1 = s\<lparr>heap := heap s @ [heap s ! a]\<rparr>
            in if count_list (columns (heap s1 ! c)) ''catch_kg'' \<noteq> 1
               then (Inl not_series_error, s1)
               else
                 case to_numeric (map catch_kg (rows (heap s1 ! c))) of
                   Inl e \<Rightarrow> (Inl e, s1)
                 | Inr col \<Rightarrow>
                     let s2 = s1\<lparr>heap := (heap s1)[c := setitem_catch_kg (heap s1 ! c) col]\<rparr>
                     in case iterrows_loop (trophic_levels s2) (iterrows (heap s2 ! c) col)
                               (Finite 0, Finite 0, []) of
                          Inl e \<Rightarrow> (Inl e, s2)
                        | Inr acc \<Rightarrow> finish s2 acc)"

text \<open>The state right after the module is imported, with the given DataFrame objects.\<close>

definition initial_state :: "dataframe list \<Rightarrow> state" where
  "initial_state h = \<lparr>heap = h, trophic_levels = TROPHIC_LEVELS, logger = []\<rparr>"

section \<open>Vocabulary for the properties\<close>

text \<open>
  The number the loop sees in a cell of the coerced copy, when the column is one of
  floats; a complex number is none.
\<close>

fun coerced :: "cell \<Rightarrow> double" where
  "coerced (Number d) = d"
| "coerced (Py_int n) = round_double (of_int n)"
| "coerced NonNumeric = NaN"
| "coerced Py_complex = NaN"

definition catch_of :: "row \<Rightarrow> double" where
  "catch_of r = coerced (catch_kg r)"

definition positive_catch :: "row \<Rightarrow> bool" where
  "positive_catch r = (\<not> isnan (catch_of r) \<and> \<not> fle (catch_of r) (Finite 0))"

fun lookup :: "(string \<times> double) list \<Rightarrow> pyobj \<Rightarrow> double option" where
  "lookup tls (Str name) = map_of tls name"
| "lookup tls Unhashable = None"

definition known :: "(string \<times> double) list \<Rightarrow> row \<Rightarrow> bool" where
  "known tls r = (lookup tls (species_name r) \<noteq> None)"

definition level_of :: "(string \<times> double) list \<Rightarrow> row \<Rightarrow> double" where
  "level_of tls r = (case lookup tls (species_name r) of Some level \<Rightarrow> level | None \<Rightarrow> NaN)"

definition contributing :: "(string \<times> double) list \<Rightarrow> row list \<Rightarrow> row list" where
  "contributing tls rs = filter (\<lambda>r. positive_catch r \<and> known tls r) rs"

definition unmatched :: "(string \<times> double) list \<Rightarrow> row list \<Rightarrow> row list" where
  "unmatched tls rs = filter (\<lambda>r. positive_catch r \<and> \<not> known tls r) rs"

definition hashable_rows :: "row list \<Rightarrow> bool" where
  "hashable_rows rs = list_all (\<lambda>r. positive_catch r \<longrightarrow> species_name r \<noteq> Unhashable) rs"

text \<open>
  A cell that \<^verbatim>\<open>pd.to_numeric\<close> turns into a float: a float, a text, or an int in the
  range of a float. A plain frame has only such cells under \<^verbatim>\<open>catch_kg\<close>, and repeats
  neither of the two labels.
\<close>

definition float_cell :: "cell \<Rightarrow> bool" where
  "float_cell c = (\<not> overflows c \<and> c \<noteq> Py_complex)"

definition plain_frame :: "dataframe \<Rightarrow> bool" where
  "plain_frame df =
     (count_list (columns df) ''species_name'' \<le> 1 \<and> count_list (columns df) ''catch_kg'' \<le> 1
      \<and> list_all (\<lambda>r. float_cell (catch_kg r)) (rows df))"

text \<open>What the loop reads in a row of a plain frame, and the copy after line 61.\<close>

definition coerce_row :: "row \<Rightarrow> pyobj \<times> numeric" where
  "coerce_row r = (species_name r, Float64 (catch_of r))"

definition coerced_copy :: "dataframe \<Rightarrow> dataframe" where
  "coerced_copy df = df\<lparr>rows := map (\<lambda>r. r\<lparr>catch_kg := Number (catch_of r)\<rparr>) (rows df)\<rparr>"

text \<open>What the loop reads in a row of any frame whose column was coerced.\<close>

definition seen :: "dataframe \<Rightarrow> row \<Rightarrow> pyobj \<times> numeric" where
  "seen df r =
     (getitem_species_name df r,
      if list_ex (\<lambda>c. c = Py_complex) (map catch_kg (rows df)) then as_complex (convert (catch_kg r))
      else convert (catch_kg r))"

text \<open>Lines 61 to 78 as a function of the table and the frame.\<close>

definition run_loop ::
  "(string \<times> double) list \<Rightarrow> dataframe \<Rightarrow> error + double \<times> double \<times> pyobj list" where
  "run_loop tls df =
     (if count_list (columns df) ''catch_kg'' \<noteq> 1 then Inl not_series_error
      else case to_numeric (map catch_kg (rows df)) of
             Inl e \<Rightarrow> Inl e
           | Inr col \<Rightarrow> iterrows_loop tls (iterrows df col) (Finite 0, Finite 0, []))"

text \<open>The frame with one more row.\<close>

definition with_row :: "dataframe \<Rightarrow> row \<Rightarrow> dataframe" where
  "with_row df r = df\<lparr>rows := rows df @ [r]\<rparr>"


text \<open>The state in which the DataFrame at \<open>a\<close> has one more row.\<close>

definition append_row :: "nat \<Rightarrow> row \<Rightarrow> state \<Rightarrow> state" where
  "append_row a r s = s\<lparr>heap := (heap s)[a := (heap s ! a)\<lparr>rows := rows (heap s ! a) @ [r]\<rparr>]\<rparr>"


text \<open>A float above zero: \<open>inf\<close>, or a finite number that is at least the least quantum.\<close>

fun pos :: "double \<Rightarrow> bool" where
  "pos (Finite r) = (2 powi least_exp \<le> r)"
| "pos PInf = True"
| "pos _ = False"


text \<open>The concrete scenarios A to D of the specification, and two more.\<close>

definition mk_row :: "string \<Rightarrow> rat \<Rightarrow> row" where
  "mk_row name c = \<lparr>species_name = Str name, catch_kg = Number (Finite c)\<rparr>"

definition mk_frame :: "row list \<Rightarrow> dataframe" where
  "mk_frame rs = \<lparr>columns = [''species_name'', ''catch_kg''], rows = rs\<rparr>"

definition scenario_A :: dataframe where
  "scenario_A =
     mk_frame [mk_row ''Atlantic cod'' 100, mk_row ''Pacific sardine'' 200,
               mk_row ''Bluefin tuna'' 50]"

definition scenario_B :: dataframe where
  "scenario_B =
     mk_frame [mk_row ''Atlantic cod'' 100, mk_row ''Unknown fish'' 50, mk_row ''Shrimp'' 30]"

definition scenario_C :: dataframe where
  "scenario_C = mk_frame [mk_row ''Atlantic cod'' 0, mk_row ''Pacific sardine'' (- 10)]"

definition scenario_D :: dataframe where
  "scenario_D = \<lparr>columns = [''species'', ''weight''], rows = [mk_row ''Atlantic cod'' 100]\<rparr>"

definition unhashable_frame :: dataframe where
  "unhashable_frame = mk_frame [\<lparr>species_name = Unhashable, catch_kg = Number (Finite 1)\<rparr>]"

text \<open>
  The unit roundoff of binary64, the least normal number, and the exact value of a finite
  float; with them, the exact sums that the accumulators of the loop approximate.
\<close>

definition unit_roundoff :: rat where
  "unit_roundoff = 2 powi (- 53)"

definition least_normal :: rat where
  "least_normal = 2 powi (- 1022)"


fun value_of :: "double \<Rightarrow> rat" where
  "value_of (Finite q) = q"
| "value_of _ = 0"

definition weighted_total :: "(string \<times> double) list \<Rightarrow> row list \<Rightarrow> rat" where
  "weighted_total tls rs = (\<Sum>r\<leftarrow>rs. value_of (level_of tls r) * value_of (catch_of r))"

definition catch_total :: "row list \<Rightarrow> rat" where
  "catch_total rs = (\<Sum>r\<leftarrow>rs. value_of (catch_of r))"

text \<open>Levels of a table: finite, between \<open>lo\<close> and \<open>hi\<close>.\<close>

definition level_within :: "rat \<Rightarrow> rat \<Rightarrow> double \<Rightarrow> bool" where
  "level_within lo hi l = (case l of Finite q \<Rightarrow> lo \<le> q \<and> q \<le> hi | _ \<Rightarrow> False)"

definition levels_within :: "rat \<Rightarrow> rat \<Rightarrow> (string \<times> double) list \<Rightarrow> bool" where
  "levels_within lo hi tls = list_all (\<lambda>(name, l). level_within lo hi l) tls"

text \<open>The float \<^verbatim>\<open>4.4\<close> is not above this.\<close>

definition max_level :: rat where
  "max_level = 22 / 5 * (1 + unit_roundoff)"

text \<open>A catch in the normal range of binary64.\<close>

definition normal_catch :: "row \<Rightarrow> bool" where
  "normal_catch r = (case catch_of r of Finite c \<Rightarrow> least_normal \<le> c | _ \<Rightarrow> False)"


text \<open>A frame with an infinite catch, and one whose product overflows.\<close>

definition inf_frame :: dataframe where
  "inf_frame = mk_frame [\<lparr>species_name = Str ''Atlantic cod'', catch_kg = Number PInf\<rparr>]"


definition list_species_frame :: dataframe where
  "list_species_frame =
     mk_frame [mk_row ''Atlantic cod'' 0, \<lparr>species_name = Unhashable, catch_kg = Number (Finite 5)\<rparr>]"

definition huge_catch :: rat where
  "huge_catch = 2 ^ 1023"

definition huge_frame :: dataframe where
  "huge_frame = mk_frame [mk_row ''Atlantic cod'' huge_catch]"

text \<open>
  A negative int outside the range of a float, a frame with a complex catch, and a frame
  that repeats the label \<^verbatim>\<open>catch_kg\<close>.
\<close>

definition huge_negative :: int where
  "huge_negative = - (10 ^ 400)"

definition complex_frame :: dataframe where
  "complex_frame = mk_frame [\<lparr>species_name = Str ''Atlantic cod'', catch_kg = Py_complex\<rparr>]"

definition huge_int_frame :: dataframe where
  "huge_int_frame =
     mk_frame [\<lparr>species_name = Str ''Atlantic cod'', catch_kg = Py_int huge_negative\<rparr>]"

definition repeated_label_frame :: dataframe where
  "repeated_label_frame =
     \<lparr>columns = [''species_name'', ''catch_kg'', ''catch_kg''],
      rows = [mk_row ''Atlantic cod'' 100]\<rparr>"

section \<open>Facts about rounding\<close>

lemma ilog2_bounds:
  assumes "0 < q"
  shows "2 powi ilog2 q \<le> q" and "q < 2 powi (ilog2 q + 1)"
proof -
  have "2 powi ilog2 q \<le> q \<and> q < 2 powi (ilog2 q + 1)"
  proof (cases "1 \<le> q")
    case True
    define n where "n = \<lfloor>q\<rfloor>"
    have n: "0 < n" using True by (simp add: n_def)
    have b1: "1 \<le> bitlen n" using n by (simp add: bitlen_alt_def)
    from bitlen_bounds[OF n] have lo: "2 ^ nat (bitlen n - 1) \<le> n" and hi: "n < 2 ^ nat (bitlen n)"
      by auto
    have "(2::rat) powi (bitlen n - 1) = of_int (2 ^ nat (bitlen n - 1))"
      using b1 by (simp add: power_int_def)
    also have "\<dots> \<le> of_int n" using lo by (simp only: of_int_le_iff)
    also have "\<dots> \<le> q" by (simp add: n_def)
    finally have A: "2 powi (bitlen n - 1) \<le> q" .
    have "n + 1 \<le> 2 ^ nat (bitlen n)" using hi by simp
    then have "(of_int (n + 1) :: rat) \<le> of_int (2 ^ nat (bitlen n))" by (simp only: of_int_le_iff)
    moreover have "q < of_int (n + 1)" unfolding n_def by simp linarith
    moreover have "(2::rat) powi (bitlen n) = of_int (2 ^ nat (bitlen n))"
      using b1 by (simp add: power_int_def)
    ultimately have B: "q < 2 powi (bitlen n)" by simp
    show ?thesis using A B True by (simp add: ilog2_def n_def)
  next
    case False
    define p where "p = 1 / q"
    have p1: "1 < p" using False assms by (simp add: p_def)
    define n where "n = \<lceil>p\<rceil> - 1"
    have n: "0 < n" using p1 by (simp add: n_def)
    have b1: "1 \<le> bitlen n" using n by (simp add: bitlen_alt_def)
    from bitlen_bounds[OF n] have lo: "2 ^ nat (bitlen n - 1) \<le> n" and hi: "n < 2 ^ nat (bitlen n)"
      by auto
    have "p \<le> of_int (n + 1)" unfolding n_def by simp
    also have "\<dots> \<le> of_int (2 ^ nat (bitlen n))" using hi by (simp only: of_int_le_iff)
    also have "\<dots> = 2 powi bitlen n" using b1 by (simp add: power_int_def)
    finally have A: "p \<le> 2 powi bitlen n" .
    have "(2::rat) powi (bitlen n - 1) = of_int (2 ^ nat (bitlen n - 1))"
      using b1 by (simp add: power_int_def)
    also have "\<dots> \<le> of_int n" using lo by (simp only: of_int_le_iff)
    also have "\<dots> < p" unfolding n_def by linarith
    finally have B: "2 powi (bitlen n - 1) < p" .
    have q: "q = 1 / p" using assms by (simp add: p_def)
    have pp: "0 < p" using p1 by simp
    have "2 powi (- bitlen n) = 1 / (2::rat) powi bitlen n" by (simp add: power_int_minus field_simps)
    also have "\<dots> \<le> 1 / p" using A pp by (simp add: frac_le)
    finally have A': "2 powi (- bitlen n) \<le> q" using q by simp
    have "1 / p < 1 / (2::rat) powi (bitlen n - 1)" using B by (simp add: frac_less2)
    also have "\<dots> = 2 powi (- bitlen n + 1)"
      using power_int_minus[of "2::rat" "bitlen n - 1"] by (simp add: field_simps)
    finally have B': "q < 2 powi (- bitlen n + 1)" using q by simp
    show ?thesis using A' B' False by (simp add: ilog2_def n_def p_def)
  qed
  then show "2 powi ilog2 q \<le> q" and "q < 2 powi (ilog2 q + 1)" by auto
qed

lemma ilog2_unique:
  assumes "2 powi k \<le> q" "q < 2 powi (k + 1)"
  shows "ilog2 q = k"
proof -
  have q: "0 < q" using assms(1) by (meson less_le_trans zero_less_numeral zero_less_power_int)
  note b = ilog2_bounds[OF q]
  have 1: "k < ilog2 q + 1"
  proof (rule ccontr)
    assume "\<not> k < ilog2 q + 1"
    then have "(2::rat) powi (ilog2 q + 1) \<le> 2 powi k" by (intro power_int_increasing) auto
    with assms(1) b(2) show False by simp
  qed
  have 2: "ilog2 q < k + 1"
  proof (rule ccontr)
    assume "\<not> ilog2 q < k + 1"
    then have "(2::rat) powi (k + 1) \<le> 2 powi ilog2 q" by (intro power_int_increasing) auto
    with assms(2) b(1) show False by simp
  qed
  show ?thesis using 1 2 by simp
qed

lemma round_half_even_cases:
  "(round_half_even x = \<lfloor>x\<rfloor> \<and> x - of_int \<lfloor>x\<rfloor> \<le> 1 / 2)
   \<or> (round_half_even x = \<lfloor>x\<rfloor> + 1 \<and> 1 / 2 \<le> x - of_int \<lfloor>x\<rfloor>)"
  unfolding round_half_even_def Let_def by (simp add: not_less)

lemma round_half_even_error: "\<bar>x - of_int (round_half_even x)\<bar> \<le> 1 / 2"
proof -
  define f where "f = \<lfloor>x\<rfloor>"
  have f: "of_int f \<le> x" "x < of_int f + 1" unfolding f_def by linarith+
  from round_half_even_cases[of x]
  consider "round_half_even x = f" "x - of_int f \<le> 1 / 2"
    | "round_half_even x = f + 1" "1 / 2 \<le> x - of_int f"
    unfolding f_def by blast
  then show ?thesis
  proof cases
    case 1
    then show ?thesis using f by (simp add: abs_if)
  next
    case 2
    then show ?thesis using f by (simp add: abs_if)
  qed
qed

lemma round_half_even_unique:
  assumes "\<bar>x - of_int m\<bar> < 1 / 2"
  shows "round_half_even x = m"
proof -
  have "\<bar>x - of_int (round_half_even x)\<bar> \<le> 1 / 2" by (rule round_half_even_error)
  with assms have "\<bar>(of_int (round_half_even x) :: rat) - of_int m\<bar> < 1" by linarith
  then have "\<bar>round_half_even x - m\<bar> < 1"
    by (metis of_int_diff of_int_abs of_int_less_1_iff)
  then show ?thesis by simp
qed

lemma round_half_even_of_int [simp]: "round_half_even (of_int m) = m"
  by (rule round_half_even_unique) simp

lemma round_half_even_ge:
  assumes "of_int k \<le> x"
  shows "k \<le> round_half_even x"
proof -
  have "k \<le> \<lfloor>x\<rfloor>" using assms by (simp add: le_floor_iff)
  with round_half_even_cases[of x] show ?thesis by auto
qed

lemma round_half_even_le:
  assumes "x \<le> of_int k"
  shows "round_half_even x \<le> k"
proof (cases "x = of_int k")
  case True
  then show ?thesis by simp
next
  case False
  with assms have "x < of_int k" by simp
  then have "\<lfloor>x\<rfloor> < k" by (simp add: floor_less_iff)
  with round_half_even_cases[of x] show ?thesis by auto
qed

lemma round_double_unfold:
  assumes "2 powi k \<le> \<bar>q\<bar>" "\<bar>q\<bar> < 2 powi (k + 1)"
  shows "round_double q =
     (let e = max (k - 52) least_exp;
          r = of_int (round_half_even (q / 2 powi e)) * 2 powi e
      in if overflow_threshold \<le> r then PInf else if r \<le> - (overflow_threshold) then NInf else Finite r)"
proof -
  have "0 < \<bar>q\<bar>" using assms(1) by (meson less_le_trans zero_less_numeral zero_less_power_int)
  then have "q \<noteq> 0" by simp
  then show ?thesis by (simp add: round_double_def ilog2_unique[OF assms])
qed

lemma round_double_eqI:
  assumes "2 powi k \<le> \<bar>q\<bar>" "\<bar>q\<bar> < 2 powi (k + 1)" "e = max (k - 52) least_exp"
    and "\<bar>q / 2 powi e - of_int m\<bar> < 1 / 2"
    and "\<bar>of_int m * 2 powi e\<bar> < overflow_threshold"
  shows "round_double q = Finite (of_int m * 2 powi e)"
proof -
  have m: "round_half_even (q / 2 powi e) = m" using assms(4) by (rule round_half_even_unique)
  have "\<not> overflow_threshold \<le> of_int m * (2::rat) powi e" "\<not> of_int m * (2::rat) powi e \<le> - (overflow_threshold)"
    using assms(5) by linarith+
  then show ?thesis
    unfolding round_double_unfold[OF assms(1,2)] Let_def assms(3)[symmetric] m by simp
qed

lemma round_double_exact:
  assumes "q = of_int m * 2 powi e" "\<bar>m\<bar> < 2 ^ 53" "least_exp \<le> e" "e \<le> 971"
  shows "round_double q = Finite q"
proof (cases "m = 0")
  case True
  then show ?thesis using assms(1) by (simp add: round_double_def)
next
  case False
  then have q0: "0 < \<bar>q\<bar>" using assms(1) by simp
  define k where "k = ilog2 \<bar>q\<bar>"
  note b = ilog2_bounds[OF q0, folded k_def]
  have "(of_int \<bar>m\<bar> :: rat) < of_int (2 ^ 53)" using assms(2) by (simp only: of_int_less_iff)
  then have "\<bar>q\<bar> < 2 ^ 53 * 2 powi e"
    unfolding assms(1) by (simp add: abs_mult)
  also have "\<dots> = 2 powi (53 + e)" by (simp add: power_int_add)
  finally have qlt: "\<bar>q\<bar> < 2 powi (53 + e)" .
  have ke: "k < 53 + e"
  proof (rule ccontr)
    assume "\<not> k < 53 + e"
    then have "(2::rat) powi (53 + e) \<le> 2 powi k" by (intro power_int_increasing) auto
    with qlt b(1) show False by simp
  qed
  define e' where "e' = max (k - 52) least_exp"
  have e': "e' \<le> e" using ke assms(3) by (simp add: e'_def)
  have "q / 2 powi e' = of_int m * 2 powi (e - e')"
    unfolding assms(1) by (simp add: power_int_diff)
  also have "\<dots> = of_int (m * 2 ^ nat (e - e'))" using e' by (simp add: power_int_def)
  finally have x: "q / 2 powi e' = of_int (m * 2 ^ nat (e - e'))" .
  have r: "of_int (round_half_even (q / 2 powi e')) * 2 powi e' = q"
    unfolding x round_half_even_of_int unfolding x[symmetric] by simp
  have "(2::rat) powi (53 + e) \<le> overflow_threshold"
    unfolding overflow_threshold_def using assms(4) by (intro power_int_increasing) auto
  with qlt have "\<bar>q\<bar> < overflow_threshold" by simp
  then have "\<not> overflow_threshold \<le> q" "\<not> q \<le> - (overflow_threshold)" by linarith+
  then show ?thesis
    unfolding round_double_unfold[OF b] Let_def e'_def[symmetric] r by simp
qed

lemma round_double_Finite_quantum:
  assumes "round_double q = Finite r"
  shows "\<exists>m e. r = of_int m * 2 powi e \<and> least_exp \<le> (e::int)"
proof (cases "q = 0")
  case True
  then have "r = of_int 0 * 2 powi (0::int)" using assms by (simp add: round_double_def)
  then show ?thesis by (intro exI[of _ 0] exI[of _ "0::int"]) (simp add: least_exp_def)
next
  case False
  define e where "e = max (ilog2 \<bar>q\<bar> - 52) least_exp"
  have "r = of_int (round_half_even (q / 2 powi e)) * 2 powi e"
    using assms False unfolding round_double_def Let_def e_def[symmetric]
    by (simp split: if_splits)
  moreover have "least_exp \<le> e" by (simp add: e_def)
  ultimately show ?thesis by blast
qed

lemma quantum_le:
  assumes "r = of_int m * 2 powi e" "least_exp \<le> (e::int)" "0 < (r::rat)"
  shows "2 powi least_exp \<le> r"
proof -
  have "0 < (2::rat) powi e" by simp
  moreover have "0 < of_int m * (2::rat) powi e" using assms(1,3) by simp
  ultimately have "0 < (of_int m :: rat)" by (rule zero_less_mult_pos2[rotated])
  then have "1 \<le> m" by simp
  then have "(1::rat) \<le> of_int m" by simp
  then have "(2::rat) powi e \<le> of_int m * 2 powi e"
    by (metis mult_le_cancel_right1 not_less zero_less_numeral zero_less_power_int order_less_imp_le)
  moreover have "(2::rat) powi least_exp \<le> 2 powi e" using assms(2) by (intro power_int_increasing) auto
  ultimately show ?thesis unfolding assms(1) by (rule order_trans[rotated])
qed

lemma round_double_pos:
  assumes "2 powi least_exp \<le> q"
  shows "round_double q = PInf \<or> (\<exists>r. round_double q = Finite r \<and> 2 powi least_exp \<le> r)"
proof -
  have q0: "0 < q" using assms by (meson less_le_trans zero_less_numeral zero_less_power_int)
  then have aq: "\<bar>q\<bar> = q" by simp
  define k where "k = ilog2 q"
  note b = ilog2_bounds[OF q0, folded k_def]
  define e where "e = max (k - 52) least_exp"
  define m where "m = round_half_even (q / 2 powi e)"
  have "2 powi e \<le> q"
  proof (cases "k - 52 \<le> least_exp")
    case True
    then show ?thesis using assms by (simp add: e_def max_def)
  next
    case False
    then have "e = k - 52" by (simp add: e_def)
    then have "(2::rat) powi e \<le> 2 powi k" by (intro power_int_increasing) auto
    then show ?thesis using b(1) by simp
  qed
  then have "of_int 1 \<le> q / 2 powi e" by (simp add: le_divide_eq)
  then have "1 \<le> m" unfolding m_def by (rule round_half_even_ge)
  then have "(1::rat) \<le> of_int m" by simp
  then have r0: "0 < of_int m * (2::rat) powi e" by (simp add: zero_less_mult_iff)
  have "2 powi least_exp \<le> of_int m * (2::rat) powi e"
    by (rule quantum_le[OF refl _ r0]) (simp add: e_def)
  moreover have "round_double q = (if overflow_threshold \<le> of_int m * (2::rat) powi e then PInf
     else Finite (of_int m * 2 powi e))"
    using r0 b unfolding round_double_unfold[of k q, unfolded aq, OF b] Let_def e_def[symmetric] m_def[symmetric]
    by (simp add: not_le[symmetric] del: not_le) 
  ultimately show ?thesis by simp
qed

lemma is_double_pos:
  assumes "is_double (Finite q)" "0 < q"
  shows "2 powi least_exp \<le> q"
proof -
  from assms(1) have "round_double q = Finite q" by simp
  from round_double_Finite_quantum[OF this] obtain m e
    where "q = of_int m * 2 powi e" "least_exp \<le> (e::int)" by blast
  then show ?thesis using assms(2) by (rule quantum_le)
qed


section \<open>Facts about the loop\<close>

lemma columns_coerced_copy [simp]: "columns (coerced_copy df) = columns df"
  by (simp add: coerced_copy_def)

lemma zip_map_same: "zip (map f xs) (map g xs) = map (\<lambda>x. (f x, g x)) xs"
  by (induction xs) simp_all

lemma zip_map_zip: "zip (map (\<lambda>(r, c). F r) (zip xs ys)) ys = zip (map F xs) ys"
proof (induction xs arbitrary: ys)
  case Nil
  then show ?case by simp
next
  case (Cons x xs)
  then show ?case by (cases ys) simp_all
qed

lemma iterrows_setitem: "iterrows (setitem_catch_kg df col) col = iterrows df col"
proof -
  have g: "getitem_species_name (setitem_catch_kg df col) = getitem_species_name df"
    by (simp add: fun_eq_iff getitem_species_name_def setitem_catch_kg_def)
  have c: "getitem_species_name df \<circ> (\<lambda>(r, c). r\<lparr>catch_kg := as_cell c\<rparr>)
      = (\<lambda>(r, c). getitem_species_name df r)"
    by (auto simp: fun_eq_iff getitem_species_name_def)
  have r: "rows (setitem_catch_kg df col)
      = map (\<lambda>(r, c). r\<lparr>catch_kg := as_cell c\<rparr>) (zip (rows df) col)"
    by (simp add: setitem_catch_kg_def)
  show ?thesis
    unfolding iterrows_def g r map_map c by (rule zip_map_zip)
qed

lemma iterrows_map:
  "iterrows df (map g (map catch_kg (rows df)))
     = map (\<lambda>r. (getitem_species_name df r, g (catch_kg r))) (rows df)"
  by (simp add: iterrows_def zip_map_same)

lemma to_numeric_cases:
  "to_numeric cells =
     (if list_ex overflows cells then Inl overflow_error
      else Inr (map (\<lambda>c. if list_ex (\<lambda>c. c = Py_complex) cells then as_complex (convert c)
                          else convert c) cells))"
  by (simp add: to_numeric_def)

lemma run_loop_seen:
  "run_loop tls df =
     (if count_list (columns df) ''catch_kg'' \<noteq> 1 then Inl not_series_error
      else if list_ex overflows (map catch_kg (rows df)) then Inl overflow_error
      else iterrows_loop tls (map (seen df) (rows df)) (Finite 0, Finite 0, []))"
proof -
  have "iterrows df (map (\<lambda>c. if list_ex (\<lambda>c. c = Py_complex) (map catch_kg (rows df))
                               then as_complex (convert c) else convert c)
                       (map catch_kg (rows df)))
      = map (seen df) (rows df)"
    unfolding iterrows_map by (simp add: seen_def)
  then show ?thesis by (simp add: run_loop_def to_numeric_cases)
qed

lemma fst_finish_heap [simp]: "fst (finish (s\<lparr>heap := h\<rparr>) acc) = fst (finish s acc)"
  by (simp add: finish_def Let_def split: prod.split)

lemma logger_finish_heap [simp]:
  "logger (snd (finish (s\<lparr>heap := h\<rparr>) acc)) = logger (snd (finish s acc))"
  by (simp add: finish_def Let_def split: prod.split)

lemma finish_frame [simp]:
  "heap (snd (finish s acc)) = heap s"
  "trophic_levels (snd (finish s acc)) = trophic_levels s"
  by (simp_all add: finish_def Let_def split: prod.split)

lemma finish_logger:
  "logger (snd (finish s (t, w, ms))) =
     logger s @ (if ms = [] then [] else [missing_species_warning ms])"
  by (simp add: finish_def Let_def)

lemma fst_finish:
  "fst (finish s (t, w, ms)) = (if feq t (Finite 0) then Inl no_valid_catch_error else fdiv w t)"
  by (simp add: finish_def Let_def)

lemma fst_finish_cases:
  "fst (finish s (t, w, ms)) = Inl no_valid_catch_error \<or> (\<exists>v. fst (finish s (t, w, ms)) = Inr v)"
proof (cases "feq t (Finite 0)")
  case True
  then show ?thesis by (simp add: finish_def Let_def)
next
  case False
  then have "\<exists>v. fdiv w t = Inr v"
    by (cases t; cases w) auto
  with False show ?thesis by (auto simp: finish_def Let_def)
qed

text \<open>What a call on a DataFrame with both columns amounts to.\<close>

lemma calculate_mtl_run_loop:
  assumes "a < length (heap s)" "set required_cols \<subseteq> set (columns (heap s ! a))"
  shows "fst (calculate_mtl (DataFrame_at a) s) =
           (case run_loop (trophic_levels s) (heap s ! a) of
              Inl e \<Rightarrow> Inl e
            | Inr acc \<Rightarrow> fst (finish s acc))"
    and "logger (snd (calculate_mtl (DataFrame_at a) s)) =
           (case run_loop (trophic_levels s) (heap s ! a) of
              Inl e \<Rightarrow> logger s
            | Inr acc \<Rightarrow> logger (snd (finish s acc)))"
  using assms
  by (simp_all add: calculate_mtl_def run_loop_def Let_def iterrows_setitem split: sum.split)

lemma count_list_one:
  "x \<in> set xs \<Longrightarrow> count_list xs x \<le> 1 \<Longrightarrow> count_list xs x = 1"
  using count_list_0_iff[of xs x] by simp

lemma plain_frame_counts:
  assumes "set required_cols \<subseteq> set (columns df)" "plain_frame df"
  shows "count_list (columns df) ''species_name'' = 1" "count_list (columns df) ''catch_kg'' = 1"
  using assms by (simp_all add: required_cols_def plain_frame_def count_list_one)

lemma convert_float_cell: "float_cell c \<Longrightarrow> convert c = Float64 (coerced c)"
  by (cases c) (simp_all add: float_cell_def)

lemma plain_frame_cells:
  assumes "plain_frame df"
  shows "\<not> list_ex overflows (map catch_kg (rows df))"
    and "\<not> list_ex (\<lambda>c. c = Py_complex) (map catch_kg (rows df))"
  using assms by (auto simp: plain_frame_def list_all_iff list_ex_iff float_cell_def)

lemma seen_plain:
  assumes "set required_cols \<subseteq> set (columns df)" "plain_frame df" "r \<in> set (rows df)"
  shows "seen df r = coerce_row r"
proof -
  have "float_cell (catch_kg r)" using assms(2,3) by (simp add: plain_frame_def list_all_iff)
  then show ?thesis
    using plain_frame_counts(1)[OF assms(1,2)] plain_frame_cells(2)[OF assms(2)]
    by (simp add: seen_def coerce_row_def getitem_species_name_def convert_float_cell catch_of_def)
qed

lemma run_loop_plain:
  assumes "set required_cols \<subseteq> set (columns df)" "plain_frame df"
  shows "run_loop tls df = iterrows_loop tls (map coerce_row (rows df)) (Finite 0, Finite 0, [])"
proof -
  have h: "map (seen df) (rows df) = map coerce_row (rows df)"
    using seen_plain[OF assms] by simp
  show ?thesis
    unfolding run_loop_seen h
    using plain_frame_counts(2)[OF assms] plain_frame_cells(1)[OF assms(2)] by simp
qed

lemma to_numeric_plain:
  assumes "plain_frame df"
  shows "to_numeric (map catch_kg (rows df)) = Inr (map (\<lambda>r. Float64 (catch_of r)) (rows df))"
proof -
  have "convert (catch_kg r) = Float64 (catch_of r)" if "r \<in> set (rows df)" for r
    using assms that by (simp add: plain_frame_def list_all_iff convert_float_cell catch_of_def)
  then show ?thesis
    using plain_frame_cells[OF assms] by (simp add: to_numeric_def)
qed

lemma setitem_plain:
  "setitem_catch_kg df (map (\<lambda>r. Float64 (catch_of r)) (rows df)) = coerced_copy df"
  by (simp add: setitem_catch_kg_def coerced_copy_def zip_map2 zip_same_conv_map o_def)

lemma calculate_mtl_DataFrame:
  assumes "a < length (heap s)" "set required_cols \<subseteq> set (columns (heap s ! a))"
    and "plain_frame (heap s ! a)"
  shows "calculate_mtl (DataFrame_at a) s =
     (case iterrows_loop (trophic_levels s) (map coerce_row (rows (heap s ! a)))
             (Finite 0, Finite 0, []) of
        Inl e \<Rightarrow> (Inl e, s\<lparr>heap := heap s @ [coerced_copy (heap s ! a)]\<rparr>)
      | Inr acc \<Rightarrow> finish (s\<lparr>heap := heap s @ [coerced_copy (heap s ! a)]\<rparr>) acc)"
proof -
  let ?df = "heap s ! a"
  let ?col = "map (\<lambda>r. Float64 (catch_of r)) (rows ?df)"
  have "iterrows ?df ?col = map coerce_row (rows ?df)"
    using plain_frame_counts(1)[OF assms(2,3)]
    by (simp add: iterrows_def zip_map_same getitem_species_name_def coerce_row_def)
  then have i: "iterrows (coerced_copy ?df) ?col = map coerce_row (rows ?df)"
    using iterrows_setitem[of ?df ?col] by (simp add: setitem_plain)
  show ?thesis
    using assms(1,2) plain_frame_counts(2)[OF assms(2,3)]
    by (simp add: calculate_mtl_def Let_def to_numeric_plain[OF assms(3)] setitem_plain i
          split: sum.split)
qed

declare iterrows_loop.simps(2) [simp del]

lemma iterrows_loop_skip:
  "\<not> positive_catch r \<Longrightarrow>
   iterrows_loop tls (coerce_row r # rs) (t, w, ms) = iterrows_loop tls rs (t, w, ms)"
  by (auto simp: iterrows_loop.simps(2) coerce_row_def positive_catch_def)

lemma iterrows_loop_known:
  "positive_catch r \<Longrightarrow> lookup tls (species_name r) = Some level \<Longrightarrow>
   iterrows_loop tls (coerce_row r # rs) (t, w, ms)
     = iterrows_loop tls rs (fadd t (catch_of r), fadd w (fmul level (catch_of r)), ms)"
  by (cases "species_name r") (auto simp: iterrows_loop.simps(2) coerce_row_def positive_catch_def)

lemma iterrows_loop_unknown:
  "positive_catch r \<Longrightarrow> species_name r = Str name \<Longrightarrow> map_of tls name = None \<Longrightarrow>
   iterrows_loop tls (coerce_row r # rs) (t, w, ms)
     = iterrows_loop tls rs (t, w, ms @ [Str name])"
  by (auto simp: iterrows_loop.simps(2) coerce_row_def positive_catch_def)

lemma iterrows_loop_unhashable:
  "positive_catch r \<Longrightarrow> species_name r = Unhashable \<Longrightarrow>
   iterrows_loop tls (coerce_row r # rs) (t, w, ms) = Inl unhashable_error"
  by (auto simp: iterrows_loop.simps(2) coerce_row_def positive_catch_def)

lemma iterrows_loop_hashable:
  assumes "hashable_rows rs"
  shows "iterrows_loop tls (map coerce_row rs) (t, w, ms) =
     Inr (foldl fadd t (map catch_of (contributing tls rs)),
          foldl fadd w (map (\<lambda>r. fmul (level_of tls r) (catch_of r)) (contributing tls rs)),
          ms @ map species_name (unmatched tls rs))"
  using assms
proof (induction rs arbitrary: t w ms)
  case Nil
  then show ?case by (simp add: contributing_def unmatched_def)
next
  case (Cons r rs)
  from Cons.prems have h: "hashable_rows rs" by (simp add: hashable_rows_def)
  show ?case
  proof (cases "positive_catch r")
    case False
    then show ?thesis
      using Cons.IH[OF h] by (simp add: iterrows_loop_skip contributing_def unmatched_def)
  next
    case True
    with Cons.prems obtain name where name: "species_name r = Str name"
      by (cases "species_name r") (auto simp: hashable_rows_def)
    show ?thesis
    proof (cases "map_of tls name")
      case None
      then have "\<not> known tls r" by (simp add: known_def name)
      then show ?thesis
        using Cons.IH[OF h] True name None
        by (simp add: iterrows_loop_unknown contributing_def unmatched_def)
    next
      case (Some level)
      then have k: "known tls r" "level_of tls r = level" "lookup tls (species_name r) = Some level"
        by (simp_all add: known_def level_of_def name)
      show ?thesis
        using Cons.IH[OF h] True k
        by (simp add: iterrows_loop_known contributing_def unmatched_def)
    qed
  qed
qed

lemma iterrows_loop_append:
  "iterrows_loop tls (rs @ rs') acc =
     (case iterrows_loop tls rs acc of Inl e \<Rightarrow> Inl e | Inr acc' \<Rightarrow> iterrows_loop tls rs' acc')"
  by (induction tls rs acc rule: iterrows_loop.induct)
     (simp_all add: iterrows_loop.simps(2) split: numeric.split pyobj.split option.split)

lemma iterrows_loop_snoc_skip:
  assumes "\<not> positive_catch r"
  shows "iterrows_loop tls (map coerce_row (rs @ [r])) acc = iterrows_loop tls (map coerce_row rs) acc"
proof -
  have "iterrows_loop tls [coerce_row r] acc' = Inr acc'" for acc'
    using assms by (cases acc') (simp add: iterrows_loop_skip)
  then show ?thesis by (simp add: iterrows_loop_append split: sum.split)
qed

text \<open>What a call on a plain frame with both columns and hashable species amounts to.\<close>

lemma calculate_mtl_hashable:
  assumes "a < length (heap s)" "set required_cols \<subseteq> set (columns (heap s ! a))"
    and "plain_frame (heap s ! a)" "hashable_rows (rows (heap s ! a))"
  shows "calculate_mtl (DataFrame_at a) s =
     finish (s\<lparr>heap := heap s @ [coerced_copy (heap s ! a)]\<rparr>)
       (foldl fadd (Finite 0) (map catch_of (contributing (trophic_levels s) (rows (heap s ! a)))),
        foldl fadd (Finite 0)
          (map (\<lambda>r. fmul (level_of (trophic_levels s) r) (catch_of r))
             (contributing (trophic_levels s) (rows (heap s ! a)))),
        map species_name (unmatched (trophic_levels s) (rows (heap s ! a))))"
  unfolding calculate_mtl_DataFrame[OF assms(1-3)] iterrows_loop_hashable[OF assms(4)] by simp


lemma append_row_simps [simp]:
  "length (heap (append_row a r s)) = length (heap s)"
  "trophic_levels (append_row a r s) = trophic_levels s"
  "logger (append_row a r s) = logger s"
  "a < length (heap s) \<Longrightarrow> columns (heap (append_row a r s) ! a) = columns (heap s ! a)"
  "a < length (heap s) \<Longrightarrow> rows (heap (append_row a r s) ! a) = rows (heap s ! a) @ [r]"
  "a < length (heap s) \<Longrightarrow> heap (append_row a r s) ! a = with_row (heap s ! a) r"
  by (simp_all add: append_row_def with_row_def)

text \<open>The loop on any frame: complex columns, repeated labels, one more row.\<close>

lemma iterrows_loop_complex:
  "Complex128 \<in> snd ` set xs \<Longrightarrow> \<exists>e. iterrows_loop tls xs acc = Inl e"
proof (induction xs arbitrary: acc)
  case Nil
  then show ?case by simp
next
  case (Cons x xs)
  obtain sp c where x: "x = (sp, c)" by (cases x)
  obtain t w ms where acc: "acc = (t, w, ms)" by (cases acc)
  show ?case
  proof (cases c)
    case Complex128
    then show ?thesis by (simp add: x acc iterrows_loop.simps(2))
  next
    case (Float64 d)
    with Cons.prems x have "Complex128 \<in> snd ` set xs" by auto
    from Cons.IH[OF this] show ?thesis
      by (simp add: x acc Float64 iterrows_loop.simps(2) split: pyobj.split option.split)
  qed
qed

lemma iterrows_loop_all_unhashable:
  "\<forall>x \<in> set xs. fst x = Unhashable \<Longrightarrow> iterrows_loop tls xs acc = Inr acc' \<Longrightarrow> acc' = acc"
proof (induction xs arbitrary: acc)
  case Nil
  then show ?case by simp
next
  case (Cons x xs)
  obtain c where x: "x = (Unhashable, c)" using Cons.prems(1) by (cases x) simp
  obtain t w ms where acc: "acc = (t, w, ms)" by (cases acc)
  from Cons.prems(1) have u: "\<forall>x \<in> set xs. fst x = Unhashable" by simp
  show ?case
  proof (cases c)
    case Complex128
    with Cons.prems(2) show ?thesis by (simp add: x acc iterrows_loop.simps(2))
  next
    case (Float64 d)
    with Cons.prems(2) have "iterrows_loop tls xs acc = Inr acc'"
      by (simp add: x acc iterrows_loop.simps(2) split: if_splits)
    then show ?thesis by (rule Cons.IH[OF u])
  qed
qed




lemma seen_complex:
  assumes "list_ex (\<lambda>c. c = Py_complex) (map catch_kg (rows df))"
  shows "Complex128 \<in> snd ` set (map (seen df) (rows df))"
proof -
  from assms obtain r where r: "r \<in> set (rows df)" "catch_kg r = Py_complex"
    by (auto simp: list_ex_iff)
  have "snd (seen df r) = Complex128" using assms r(2) by (simp add: seen_def)
  with r(1) show ?thesis by force
qed

lemma run_loop_complex:
  assumes "list_ex (\<lambda>c. c = Py_complex) (map catch_kg (rows df))"
  shows "\<exists>e. run_loop tls df = Inl e"
  unfolding run_loop_seen using iterrows_loop_complex[OF seen_complex[OF assms]] by simp

text \<open>
  A complex column ends the loop at its first cell that is not NaN, whatever the species
  are: the call fails with the \<^verbatim>\<open>TypeError\<close> of the comparison.
\<close>

lemma iterrows_loop_complex_column:
  assumes "\<forall>x \<in> set xs. snd x = Float64 NaN \<or> snd x = Complex128"
    and "Complex128 \<in> snd ` set xs"
  shows "iterrows_loop tls xs acc = Inl not_comparable_error"
  using assms
proof (induction xs arbitrary: acc)
  case Nil
  then show ?case by simp
next
  case (Cons x xs)
  obtain sp c where x: "x = (sp, c)" by (cases x)
  obtain t w ms where acc: "acc = (t, w, ms)" by (cases acc)
  from Cons.prems(1) have r: "\<forall>x \<in> set xs. snd x = Float64 NaN \<or> snd x = Complex128" by simp
  show ?case
  proof (cases "c = Complex128")
    case True
    then show ?thesis by (simp add: x acc iterrows_loop.simps(2))
  next
    case False
    with Cons.prems x have c: "c = Float64 NaN" and "Complex128 \<in> snd ` set xs" by auto
    from Cons.IH[OF r this(2)] show ?thesis
      by (simp add: x acc c iterrows_loop.simps(2))
  qed
qed

lemma complex_column_raises:
  assumes "a < length (heap s)" "set required_cols \<subseteq> set (columns (heap s ! a))"
    and "count_list (columns (heap s ! a)) ''catch_kg'' = 1"
    and "\<not> list_ex overflows (map catch_kg (rows (heap s ! a)))"
    and "list_ex (\<lambda>c. c = Py_complex) (map catch_kg (rows (heap s ! a)))"
  shows "fst (calculate_mtl (DataFrame_at a) s) = Inl not_comparable_error"
proof -
  let ?df = "heap s ! a"
  have "as_complex y = Float64 NaN \<or> as_complex y = Complex128" for y
    by (cases y) simp_all
  then have 1: "\<forall>x \<in> set (map (seen ?df) (rows ?df)). snd x = Float64 NaN \<or> snd x = Complex128"
    using assms(5) by (simp add: seen_def)
  have "run_loop (trophic_levels s) ?df = Inl not_comparable_error"
    unfolding run_loop_seen
    using assms(3,4) iterrows_loop_complex_column[OF 1 seen_complex[OF assms(5)]] by simp
  then show ?thesis unfolding calculate_mtl_run_loop(1)[OF assms(1,2)] by simp
qed




lemma columns_with_row [simp]: "columns (with_row df r) = columns df"
  by (simp add: with_row_def)

lemma rows_with_row [simp]: "rows (with_row df r) = rows df @ [r]"
  by (simp add: with_row_def)


text \<open>A call that returns was given a plain frame.\<close>

lemma returns_imp_plain:
  assumes "a < length (heap s)" "set required_cols \<subseteq> set (columns (heap s ! a))"
    and "fst (calculate_mtl (DataFrame_at a) s) = Inr v"
  shows "plain_frame (heap s ! a)"
proof -
  let ?df = "heap s ! a"
  let ?tls = "trophic_levels s"
  from assms(3) obtain t w ms where run: "run_loop ?tls ?df = Inr (t, w, ms)"
    and t: "\<not> feq t (Finite 0)"
    unfolding calculate_mtl_run_loop(1)[OF assms(1,2)]
    by (auto simp: fst_finish split: sum.splits if_splits)
  have c: "count_list (columns ?df) ''catch_kg'' = 1"
    using run unfolding run_loop_seen by (simp split: if_splits)
  have o: "\<not> list_ex overflows (map catch_kg (rows ?df))"
    using run unfolding run_loop_seen by (simp split: if_splits)
  have x: "\<not> list_ex (\<lambda>c. c = Py_complex) (map catch_kg (rows ?df))"
    using run run_loop_complex[of ?df ?tls] by auto
  have l: "iterrows_loop ?tls (map (seen ?df) (rows ?df)) (Finite 0, Finite 0, []) = Inr (t, w, ms)"
    using run c o unfolding run_loop_seen by simp
  have sp: "count_list (columns ?df) ''species_name'' = 1"
  proof (rule ccontr)
    assume "count_list (columns ?df) ''species_name'' \<noteq> 1"
    then have "\<forall>x \<in> set (map (seen ?df) (rows ?df)). fst x = Unhashable"
      by (simp add: seen_def getitem_species_name_def)
    from iterrows_loop_all_unhashable[OF this l] t show False by simp
  qed
  have "float_cell (catch_kg r)" if "r \<in> set (rows ?df)" for r
    using o x that by (force simp: list_ex_iff float_cell_def)
  then show ?thesis
    using c sp by (simp add: plain_frame_def list_all_iff)
qed

lemma float_cell_simps [simp]: "float_cell (Number d)" "float_cell NonNumeric"
  by (simp_all add: float_cell_def)

lemma float_cell_mk_row [simp]: "float_cell (catch_kg (mk_row name c))"
  by (simp add: mk_row_def)

lemma plain_mk_frame:
  "list_all (\<lambda>r. float_cell (catch_kg r)) rs \<Longrightarrow> plain_frame (mk_frame rs)"
  by (simp add: plain_frame_def mk_frame_def)

lemma finish_logger_ex:
  "\<exists>ms. logger (snd (finish s acc)) = logger s @ (if ms = [] then [] else [missing_species_warning ms])"
  by (cases acc) (auto simp: finish_logger)

section \<open>Facts about the sums\<close>

lemma quantum_not_le [simp]: "\<not> (2::rat) powi least_exp \<le> 0"
  by (simp add: not_le)

lemma quantum_le_nonneg: "2 powi least_exp \<le> a \<Longrightarrow> 0 \<le> (a::rat)"
  by (meson order_trans zero_le_numeral zero_le_power_int)

lemma fadd_pos:
  assumes "t = Finite 0 \<or> pos t" "pos c"
  shows "pos (fadd t c)"
proof (cases c)
  case (Finite b)
  then have b: "2 powi least_exp \<le> b" using assms(2) by simp
  show ?thesis
  proof (cases t)
    case (Finite a)
    then have "0 \<le> a" using assms(1) by (auto intro: quantum_le_nonneg)
    then have "2 powi least_exp \<le> a + b" using b by simp
    from round_double_pos[OF this] show ?thesis using Finite \<open>c = Finite b\<close> by auto
  qed (use assms Finite in auto)
next
  case PInf
  then show ?thesis using assms(1) by (cases t) auto
qed (use assms in auto)

lemma positive_catch_pos:
  assumes "positive_catch r" "is_double (catch_of r)"
  shows "pos (catch_of r)"
proof (cases "catch_of r")
  case (Finite q)
  then have "0 < q" using assms(1) by (simp add: positive_catch_def)
  moreover have "is_double (Finite q)" using assms(2) Finite by simp
  ultimately show ?thesis using Finite is_double_pos by simp
qed (use assms in \<open>auto simp: positive_catch_def\<close>)

lemma foldl_fadd_pos:
  "pos t \<Longrightarrow> list_all pos cs \<Longrightarrow> pos (foldl fadd t cs)"
  by (induction cs arbitrary: t) (simp_all add: fadd_pos)

lemma foldl_fadd_zero_pos:
  "cs \<noteq> [] \<Longrightarrow> list_all pos cs \<Longrightarrow> pos (foldl fadd (Finite 0) cs)"
  by (cases cs) (simp_all add: fadd_pos foldl_fadd_pos)

lemma pos_not_zero: "pos t \<Longrightarrow> \<not> feq t (Finite 0)"
  by (cases t) auto

lemma pos_fdiv: "pos t \<Longrightarrow> \<exists>v. fdiv w t = Inr v"
  by (cases t; cases w) auto

lemma total_catch_pos:
  assumes "\<forall>r \<in> set rs. is_double (catch_of r)" "contributing tls rs \<noteq> []"
  shows "pos (foldl fadd (Finite 0) (map catch_of (contributing tls rs)))"
proof -
  have "list_all pos (map catch_of (contributing tls rs))"
    using assms(1) by (auto simp: list_all_iff contributing_def intro: positive_catch_pos)
  then show ?thesis using assms(2) by (intro foldl_fadd_zero_pos) simp_all
qed

lemma contributing_all:
  "\<forall>r \<in> set rs. known tls r \<and> positive_catch r \<Longrightarrow> contributing tls rs = rs"
  by (simp add: contributing_def)


lemma round_double_of_int:
  "\<bar>m\<bar> < 2 ^ 53 \<Longrightarrow> round_double (of_int m) = Finite (of_int m)"
  by (rule round_double_exact[of _ m 0]) (simp_all add: least_exp_def)

lemma float_lit_35: "float_lit (7 / 2) = Finite (7 / 2)"
  unfolding float_lit_def
  using round_double_exact[of "35 / 10" 7 "- 1"] by (simp add: least_exp_def)

lemma float_lit_28: "float_lit (14 / 5) = Finite (3152519739159347 / 2 ^ 50)"
  unfolding float_lit_def
  using round_double_eqI[of 1 "28 / 10" "- 51" 6305039478318694]
  by (simp add: least_exp_def overflow_threshold_def)

lemma float_lit_42: "float_lit (21 / 5) = Finite (4728779608739021 / 2 ^ 50)"
  unfolding float_lit_def
  using round_double_eqI[of 2 "42 / 10" "- 50" 4728779608739021]
  by (simp add: least_exp_def overflow_threshold_def)

lemma float_lit_32: "float_lit (16 / 5) = Finite (3602879701896397 / 2 ^ 50)"
  unfolding float_lit_def
  using round_double_eqI[of 1 "32 / 10" "- 51" 7205759403792794]
  by (simp add: least_exp_def overflow_threshold_def)

lemma round_100: "round_double 100 = Finite 100"
  using round_double_of_int[of 100] by simp

lemma round_300: "round_double 300 = Finite 300"
  using round_double_of_int[of 300] by simp

lemma round_350: "round_double 350 = Finite 350"
  using round_double_of_int[of 350] by simp

lemma round_910: "round_double 910 = Finite 910"
  using round_double_of_int[of 910] by simp

lemma round_1120: "round_double 1120 = Finite 1120"
  using round_double_of_int[of 1120] by simp

lemma mul_28_200: "round_double (78812993478983675 / 140737488355328) = Finite 560"
  using round_double_eqI[of 9 "78812993478983675 / 140737488355328" "- 43" 4925812092436480]
  by (simp add: least_exp_def overflow_threshold_def)

lemma mul_42_50: "round_double (118219490218475525 / 562949953421312) = Finite 210"
  using round_double_eqI[of 7 "118219490218475525 / 562949953421312" "- 45" 7388718138654720]
  by (simp add: least_exp_def overflow_threshold_def)

lemma known_scenario_A:
  "map_of TROPHIC_LEVELS ''Atlantic cod'' = Some (float_lit (35 / 10))"
  "map_of TROPHIC_LEVELS ''Pacific sardine'' = Some (float_lit (28 / 10))"
  "map_of TROPHIC_LEVELS ''Bluefin tuna'' = Some (float_lit (42 / 10))"
  by (simp_all add: TROPHIC_LEVELS_def)


lemma round_0: "round_double 0 = Finite 0"
  by (simp add: round_double_def)

lemma round_200: "round_double 200 = Finite 200"
  using round_double_of_int[of 200] by simp

lemma round_50: "round_double 50 = Finite 50"
  using round_double_of_int[of 50] by simp

lemma round_minus_10: "round_double (- 10) = Finite (- 10)"
  using round_double_of_int[of "- 10"] by simp

section \<open>Facts about rounding errors\<close>

lemma level_within_iff: "level_within lo hi l = (\<exists>q. l = Finite q \<and> lo \<le> q \<and> q \<le> hi)"
  by (cases l) (simp_all add: level_within_def)

lemma normal_catch_iff: "normal_catch r = (\<exists>c. catch_of r = Finite c \<and> least_normal \<le> c)"
  by (cases "catch_of r") (simp_all add: normal_catch_def)

lemma unit_roundoff_pos: "0 < unit_roundoff"
  by (simp add: unit_roundoff_def)

lemma unit_roundoff_less_1: "unit_roundoff < 1"
  by (simp add: unit_roundoff_def)

lemma overflow_threshold_pos: "0 < overflow_threshold"
  by (simp only: overflow_threshold_def zero_less_power_int zero_less_numeral)

lemma least_normal_pos: "0 < least_normal"
  by (simp only: least_normal_def zero_less_power_int zero_less_numeral)

lemma round_double_rel:
  assumes n: "least_normal \<le> x" and o: "x * (1 + unit_roundoff) < overflow_threshold"
  shows "\<exists>r. round_double x = Finite r \<and> x * (1 - unit_roundoff) \<le> r
            \<and> r \<le> x * (1 + unit_roundoff)"
proof -
  have x0: "0 < x" using n least_normal_pos by simp
  then have ax: "\<bar>x\<bar> = x" by simp
  define k where "k = ilog2 x"
  note b = ilog2_bounds[OF x0, folded k_def]
  have k: "- 1022 \<le> k"
  proof (rule ccontr)
    assume "\<not> - 1022 \<le> k"
    then have "k + 1 \<le> - 1022" by simp
    then have "(2::rat) powi (k + 1) \<le> 2 powi (- 1022)" by (intro power_int_increasing) auto
    with b(2) n show False unfolding least_normal_def by simp
  qed
  define e where "e = k - 52"
  have e: "max (k - 52) least_exp = e" using k by (simp add: e_def least_exp_def)
  define m where "m = round_half_even (x / 2 powi e)"
  define r where "r = of_int m * (2::rat) powi e"
  have pe: "0 < (2::rat) powi e" by simp
  have "\<bar>x / 2 powi e - of_int m\<bar> \<le> 1 / 2" unfolding m_def by (rule round_half_even_error)
  then have "\<bar>x / 2 powi e - of_int m\<bar> * 2 powi e \<le> 1 / 2 * 2 powi e"
    using pe by (intro mult_right_mono) simp_all
  moreover have "\<bar>x / 2 powi e - of_int m\<bar> * 2 powi e = \<bar>x - r\<bar>"
  proof -
    have "\<bar>x / 2 powi e - of_int m\<bar> * 2 powi e = \<bar>(x / 2 powi e - of_int m) * 2 powi e\<bar>"
      by (simp add: abs_mult)
    also have "(x / 2 powi e - of_int m) * 2 powi e = x - r"
      by (simp add: r_def algebra_simps)
    finally show ?thesis .
  qed
  moreover have "1 / 2 * (2::rat) powi e = 2 powi k * unit_roundoff"
  proof -
    have "(2::rat) powi e = 2 powi (k + (- 52))" by (simp add: e_def)
    also have "\<dots> = 2 powi k * 2 powi (- 52)" by (rule power_int_add) simp
    finally have "(2::rat) powi e = 2 powi k * 2 powi (- 52)" .
    moreover have "1 / 2 * (2::rat) powi (- 52) = 2 powi (- 53)" by simp
    ultimately show ?thesis by (simp add: unit_roundoff_def)
  qed
  ultimately have "\<bar>x - r\<bar> \<le> 2 powi k * unit_roundoff" by simp
  also have "\<dots> \<le> x * unit_roundoff"
    using b(1) unit_roundoff_pos by (intro mult_right_mono) simp_all
  finally have d: "\<bar>x - r\<bar> \<le> x * unit_roundoff" .
  then have lo: "x * (1 - unit_roundoff) \<le> r" and hi: "r \<le> x * (1 + unit_roundoff)"
    by (simp_all add: algebra_simps abs_le_iff)
  have "0 \<le> x * (1 - unit_roundoff)" using x0 unit_roundoff_less_1 by simp
  with lo have r0: "0 \<le> r" by simp
  have 1: "\<not> overflow_threshold \<le> r" using hi o by simp
  have 2: "\<not> r \<le> - overflow_threshold" using r0 overflow_threshold_pos by simp
  have "round_double x = Finite r"
    using round_double_unfold[of k x, unfolded ax, OF b] 1 2
    unfolding Let_def e m_def[symmetric] r_def[symmetric] by simp
  with lo hi show ?thesis by blast
qed

lemma Bernoulli_rat: "0 \<le> x \<Longrightarrow> x \<le> 1 \<Longrightarrow> 1 - of_nat n * x \<le> (1 - x) ^ n" for x :: rat
proof (induction n)
  case 0
  then show ?case by simp
next
  case (Suc n)
  have "1 - of_nat (Suc n) * x \<le> (1 - of_nat n * x) * (1 - x)"
    using Suc.prems by (simp add: algebra_simps)
  also have "\<dots> \<le> (1 - x) ^ n * (1 - x)"
    using Suc by (intro mult_right_mono) simp_all
  finally show ?case by (simp add: mult.commute)
qed

lemma power_1_plus_le:
  fixes x :: rat
  assumes "0 \<le> x" "of_nat n * x < 1"
  shows "(1 + x) ^ n \<le> 1 / (1 - of_nat n * x)"
proof (cases "n = 0")
  case True
  then show ?thesis by simp
next
  case False
  then have "1 \<le> (of_nat n :: rat)" by simp
  then have "x \<le> of_nat n * x" using assms(1) by (simp add: mult_le_cancel_right1)
  then have x1: "x \<le> 1" using assms(2) by simp
  have "(1 + x) ^ n * (1 - of_nat n * x) \<le> (1 + x) ^ n * (1 - x) ^ n"
    using assms(1) Bernoulli_rat[OF assms(1) x1, of n] by (intro mult_left_mono) simp_all
  also have "\<dots> = ((1 + x) * (1 - x)) ^ n" by (simp add: power_mult_distrib)
  also have "\<dots> \<le> 1 ^ n"
  proof (intro power_mono)
    have "(1 + x) * (1 - x) = 1 - x * x" by (simp add: algebra_simps)
    moreover have "0 \<le> x * x" by simp
    ultimately show "(1 + x) * (1 - x) \<le> 1" by simp
    show "0 \<le> (1 + x) * (1 - x)" using assms(1) x1 by (intro mult_nonneg_nonneg) simp_all
  qed
  finally have "(1 + x) ^ n * (1 - of_nat n * x) \<le> 1" by simp
  then show ?thesis using assms(2) by (simp add: pos_le_divide_eq)
qed

lemma sum_list_nonneg_normal:
  "\<forall>x \<in> set xs. least_normal \<le> x \<Longrightarrow> 0 \<le> sum_list xs"
  using least_normal_pos by (induction xs) (auto intro: add_nonneg_nonneg order_trans less_imp_le)

lemma foldl_fadd_bounds:
  assumes "0 \<le> t" "\<forall>x \<in> set xs. least_normal \<le> x"
    and "(t + sum_list xs) * (1 + unit_roundoff) ^ length xs < overflow_threshold"
  shows "\<exists>r. foldl fadd (Finite t) (map Finite xs) = Finite r
            \<and> (t + sum_list xs) * (1 - unit_roundoff) ^ length xs \<le> r
            \<and> r \<le> (t + sum_list xs) * (1 + unit_roundoff) ^ length xs"
  using assms
proof (induction xs arbitrary: t)
  case Nil
  then show ?case by simp
next
  case (Cons x xs)
  define U where "U = 1 + unit_roundoff"
  define L where "L = 1 - unit_roundoff"
  define S where "S = sum_list xs"
  define n where "n = length xs"
  have U1: "1 \<le> U" using unit_roundoff_pos by (simp add: U_def)
  have L0: "0 \<le> L" and L1: "L \<le> 1"
    using unit_roundoff_pos unit_roundoff_less_1 by (simp_all add: L_def)
  have x: "least_normal \<le> x" and xs: "\<forall>x \<in> set xs. least_normal \<le> x"
    using Cons.prems(2) by simp_all
  have S0: "0 \<le> S" unfolding S_def using xs by (rule sum_list_nonneg_normal)
  have t0: "0 \<le> t" by (rule Cons.prems(1))
  have x0: "0 \<le> x" using x least_normal_pos by simp
  have tx: "least_normal \<le> t + x" using x t0 by simp
  have ov: "(t + x + S) * (U * U ^ n) < overflow_threshold"
    using Cons.prems(3) by (simp add: U_def S_def n_def add.assoc)
  have Un1: "1 \<le> U ^ n" using U1 by (rule one_le_power)
  have "(t + x) * U \<le> (t + x + S) * (U * U ^ n)"
  proof -
    have "(t + x) * U \<le> (t + x + S) * U"
      using S0 U1 by (intro mult_right_mono) simp_all
    also have "\<dots> = (t + x + S) * (U * 1)" by simp
    also have "\<dots> \<le> (t + x + S) * (U * U ^ n)"
      using S0 t0 x0 U1 Un1 by (intro mult_left_mono) simp_all
    finally show ?thesis .
  qed
  with ov have "(t + x) * (1 + unit_roundoff) < overflow_threshold" by (simp add: U_def)
  from round_double_rel[OF tx this] obtain t'
    where t': "round_double (t + x) = Finite t'" "(t + x) * L \<le> t'" "t' \<le> (t + x) * U"
    unfolding U_def L_def by blast
  have t'0: "0 \<le> t'"
  proof -
    have "0 \<le> (t + x) * L" using t0 x0 L0 by simp
    with t'(2) show ?thesis by simp
  qed
  have up: "t' + S \<le> (t + x + S) * U"
  proof -
    have "S \<le> S * U" using S0 U1 by (simp add: mult_le_cancel_left1)
    with t'(3) show ?thesis by (simp add: algebra_simps)
  qed
  have dn: "(t + x + S) * L \<le> t' + S"
  proof -
    have "S * L \<le> S" using S0 L1 by (simp add: mult_le_cancel_left2)
    with t'(2) show ?thesis by (simp add: algebra_simps)
  qed
  have "(t' + S) * U ^ n \<le> (t + x + S) * U * U ^ n"
    using up U1 by (intro mult_right_mono) simp_all
  then have up': "(t' + S) * U ^ n \<le> (t + x + S) * (U * U ^ n)" by (simp add: mult.assoc)
  with ov have "(t' + sum_list xs) * (1 + unit_roundoff) ^ length xs < overflow_threshold"
    by (simp add: U_def S_def n_def)
  from Cons.IH[OF t'0 xs this] obtain r
    where r: "foldl fadd (Finite t') (map Finite xs) = Finite r"
      "(t' + S) * L ^ n \<le> r" "r \<le> (t' + S) * U ^ n"
    unfolding U_def L_def S_def n_def by blast
  have "(t + x + S) * L * L ^ n \<le> (t' + S) * L ^ n"
    using dn L0 by (intro mult_right_mono) simp_all
  then have dn': "(t + x + S) * (L * L ^ n) \<le> (t' + S) * L ^ n" by (simp add: mult.assoc)
  have "foldl fadd (Finite t) (map Finite (x # xs)) = Finite r" using r(1) t'(1) by simp
  moreover have "(t + sum_list (x # xs)) * (1 - unit_roundoff) ^ length (x # xs) \<le> r"
    using dn' r(2) by (simp add: U_def L_def S_def n_def add.assoc)
  moreover have "r \<le> (t + sum_list (x # xs)) * (1 + unit_roundoff) ^ length (x # xs)"
    using up' r(3) by (simp add: U_def L_def S_def n_def add.assoc)
  ultimately show ?case by blast
qed

lemma power_U_le:
  assumes "n \<le> 2 ^ 30 + 2"
  shows "(1 + unit_roundoff) ^ n \<le> 4 / 3"
proof -
  have "(of_nat n :: rat) \<le> of_nat (2 ^ 30 + 2)" using assms by (simp only: of_nat_le_iff)
  then have "of_nat n * unit_roundoff \<le> of_nat (2 ^ 30 + 2) * unit_roundoff"
    using unit_roundoff_pos by (intro mult_right_mono) simp_all
  also have "\<dots> \<le> 1 / 4" by (simp add: unit_roundoff_def)
  finally have nu: "of_nat n * unit_roundoff \<le> 1 / 4" .
  then have "(1 + unit_roundoff) ^ n \<le> 1 / (1 - of_nat n * unit_roundoff)"
    using unit_roundoff_pos by (intro power_1_plus_le) simp_all
  also have "\<dots> \<le> 4 / 3" using nu by (simp add: field_simps)
  finally show ?thesis .
qed

lemma power_L_ge:
  assumes "n \<le> 2 ^ 30 + 2"
  shows "3 / 4 \<le> (1 - unit_roundoff) ^ n"
proof -
  have "(of_nat n :: rat) \<le> of_nat (2 ^ 30 + 2)" using assms by (simp only: of_nat_le_iff)
  then have "of_nat n * unit_roundoff \<le> of_nat (2 ^ 30 + 2) * unit_roundoff"
    using unit_roundoff_pos by (intro mult_right_mono) simp_all
  also have "\<dots> \<le> 1 / 4" by (simp add: unit_roundoff_def)
  finally have nu: "of_nat n * unit_roundoff \<le> 1 / 4" .
  have "3 / 4 \<le> 1 - of_nat n * unit_roundoff" using nu by simp
  also have "\<dots> \<le> (1 - unit_roundoff) ^ n"
    using unit_roundoff_pos unit_roundoff_less_1 by (intro Bernoulli_rat) simp_all
  finally show ?thesis .
qed

lemma least_normal_le_1: "least_normal \<le> 1"
proof -
  have "(2::rat) powi (- 1022) \<le> 2 powi 0" by (intro power_int_increasing) auto
  then show ?thesis by (simp only: least_normal_def power_int_0_right)
qed

lemma below_threshold:
  assumes "x \<le> 2 powi 1010" "0 \<le> m" "m \<le> 1024"
  shows "x * m < overflow_threshold"
proof -
  have p: "0 \<le> (2::rat) powi 1010" by simp
  have "x * m \<le> 2 powi 1010 * m" using assms(1,2) by (intro mult_right_mono)
  also have "\<dots> \<le> 2 powi 1010 * 1024" using assms(3) p by (intro mult_left_mono)
  also have "\<dots> = 2 powi 1010 * 2 powi 10" by simp
  also have "\<dots> = 2 powi (1010 + 10)" by (rule power_int_add[symmetric]) simp
  also have "\<dots> < 2 powi 1024" by (intro power_int_strict_increasing) auto
  finally show ?thesis by (simp only: overflow_threshold_def)
qed

lemma member_le_sum_list_rat:
  fixes xs :: "rat list"
  assumes "\<forall>y \<in> set xs. 0 \<le> y" "x \<in> set xs"
  shows "x \<le> sum_list xs"
  using assms
proof (induction xs)
  case Nil
  then show ?case by simp
next
  case (Cons y ys)
  have ys0: "0 \<le> sum_list ys" using Cons.prems(1) by (intro sum_list_nonneg) simp
  show ?case
  proof (cases "x = y")
    case True
    then show ?thesis using ys0 by simp
  next
    case False
    then have "x \<le> sum_list ys" using Cons by simp
    moreover have "0 \<le> y" using Cons.prems(1) by simp
    ultimately show ?thesis by simp
  qed
qed

lemma known_level:
  assumes "levels_within lo hi tls" "known tls r"
  shows "\<exists>l. level_of tls r = Finite l \<and> lo \<le> l \<and> l \<le> hi"
proof -
  from assms(2) obtain lv where lv: "lookup tls (species_name r) = Some lv"
    by (auto simp: known_def)
  then obtain name where "species_name r = Str name" "map_of tls name = Some lv"
    by (cases "species_name r") auto
  then have "(name, lv) \<in> set tls" by (simp add: map_of_SomeD)
  with assms(1) have "\<exists>q. lv = Finite q \<and> lo \<le> q \<and> q \<le> hi"
    by (auto simp: levels_within_def level_within_iff list_all_iff)
  moreover have "level_of tls r = lv" using lv by (simp add: level_of_def)
  ultimately show ?thesis by simp
qed

lemma product_accuracy:
  assumes l: "2 \<le> l" "l \<le> 8" and c: "least_normal \<le> c" "c \<le> 2 powi 1000"
  shows "\<exists>p. fmul (Finite l) (Finite c) = Finite p
           \<and> l * c * (1 - unit_roundoff) \<le> p \<and> p \<le> l * c * (1 + unit_roundoff)
           \<and> least_normal \<le> p"
proof -
  have c0: "0 \<le> c" using c(1) least_normal_pos by simp
  have "c * 1 \<le> c * l" using l(1) c0 by (intro mult_left_mono) simp_all
  then have lc: "c \<le> l * c" by (simp add: mult.commute)
  then have 1: "least_normal \<le> l * c" using c(1) by simp
  have "l * c \<le> 8 * 2 powi 1000"
    using l c c0 by (intro mult_mono) simp_all
  also have "\<dots> = 2 powi 3 * 2 powi 1000" by simp
  also have "\<dots> = 2 powi (3 + 1000)" by (rule power_int_add[symmetric]) simp
  also have "\<dots> \<le> 2 powi 1010" by (intro power_int_increasing) auto
  finally have "l * c \<le> 2 powi 1010" .
  then have 2: "l * c * (1 + unit_roundoff) < overflow_threshold"
    using unit_roundoff_pos unit_roundoff_less_1 by (intro below_threshold) simp_all
  from round_double_rel[OF 1 2] obtain p where p: "round_double (l * c) = Finite p"
    "l * c * (1 - unit_roundoff) \<le> p" "p \<le> l * c * (1 + unit_roundoff)" by blast
  have "3 / 4 \<le> (1 - unit_roundoff) ^ 1" by (rule power_L_ge) simp
  then have L: "3 / 4 \<le> 1 - unit_roundoff" by simp
  have "1 \<le> l * (1 - unit_roundoff)"
  proof -
    have "1 \<le> 2 * (3 / 4 :: rat)" by simp
    also have "\<dots> \<le> l * (1 - unit_roundoff)" using l(1) L by (intro mult_mono) simp_all
    finally show ?thesis .
  qed
  then have "c * 1 \<le> c * (l * (1 - unit_roundoff))" using c0 by (intro mult_left_mono)
  then have "c \<le> l * c * (1 - unit_roundoff)" by (simp add: algebra_simps)
  with p(2) c(1) have "least_normal \<le> p" by simp
  with p show ?thesis by auto
qed

lemma accumulators_accuracy:
  assumes lv: "levels_within lo hi tls" and lo: "2 \<le> lo" and hi: "hi \<le> 8"
    and rs: "\<forall>r \<in> set rs. known tls r \<and> normal_catch r"
    and n: "length rs \<le> 2 ^ 30"
    and tot: "catch_total rs \<le> 2 powi 1000"
  shows "\<exists>t w. foldl fadd (Finite 0) (map catch_of rs) = Finite t
       \<and> foldl fadd (Finite 0) (map (\<lambda>r. fmul (level_of tls r) (catch_of r)) rs) = Finite w
       \<and> catch_total rs * (1 - unit_roundoff) ^ length rs \<le> t
       \<and> t \<le> catch_total rs * (1 + unit_roundoff) ^ length rs
       \<and> weighted_total tls rs * (1 - unit_roundoff) ^ (length rs + 1) \<le> w
       \<and> w \<le> weighted_total tls rs * (1 + unit_roundoff) ^ (length rs + 1)"
proof -
  define U where "U = 1 + unit_roundoff"
  define L where "L = 1 - unit_roundoff"
  define c where "c = (\<lambda>r. value_of (catch_of r))"
  define l where "l = (\<lambda>r. value_of (level_of tls r))"
  define p where "p = (\<lambda>r. value_of (fmul (level_of tls r) (catch_of r)))"
  have U1: "1 \<le> U" and U0: "0 \<le> U" using unit_roundoff_pos by (simp_all add: U_def)
  have L0: "0 \<le> L" using unit_roundoff_less_1 by (simp add: L_def)
  have Un: "U ^ length rs \<le> 4 / 3" unfolding U_def using n by (intro power_U_le) simp
  have Un0: "0 \<le> U ^ length rs" using U0 by simp
  have U43: "U \<le> 4 / 3" using power_U_le[of 1] by (simp add: U_def)
  have cf: "catch_of r = Finite (c r)" "least_normal \<le> c r" if "r \<in> set rs" for r
    using rs that by (auto simp: normal_catch_iff c_def)
  have c0: "0 \<le> c r" if "r \<in> set rs" for r
    using cf(2)[OF that] least_normal_pos by simp
  have ct: "catch_total rs = sum_list (map c rs)" by (simp add: catch_total_def c_def)
  have cle: "c r \<le> 2 powi 1000" if "r \<in> set rs" for r
  proof -
    have "c r \<le> sum_list (map c rs)"
      using that c0 by (intro member_le_sum_list_rat) auto
    with tot ct show ?thesis by simp
  qed
  have lf: "level_of tls r = Finite (l r)" "lo \<le> l r" "l r \<le> hi" if "r \<in> set rs" for r
    using known_level[OF lv, of r] rs that by (auto simp: l_def)
  have pf: "fmul (level_of tls r) (catch_of r) = Finite (p r)"
      "l r * c r * L \<le> p r" "p r \<le> l r * c r * U" "least_normal \<le> p r"
    if "r \<in> set rs" for r
  proof -
    have "2 \<le> l r" "l r \<le> 8" using lf[OF that] lo hi by simp_all
    from product_accuracy[OF this cf(2)[OF that] cle[OF that]]
    show "fmul (level_of tls r) (catch_of r) = Finite (p r)"
      "l r * c r * L \<le> p r" "p r \<le> l r * c r * U" "least_normal \<le> p r"
      unfolding p_def lf(1)[OF that] cf(1)[OF that] L_def U_def by auto
  qed
  have wt: "weighted_total tls rs = sum_list (map (\<lambda>r. l r * c r) rs)"
    by (simp add: weighted_total_def c_def l_def)
  have mc: "map catch_of rs = map Finite (map c rs)" using cf(1) by simp
  have mp: "map (\<lambda>r. fmul (level_of tls r) (catch_of r)) rs = map Finite (map p rs)"
    using pf(1) by simp
  have sp_hi: "sum_list (map p rs) \<le> weighted_total tls rs * U"
  proof -
    have "sum_list (map p rs) \<le> sum_list (map (\<lambda>r. l r * c r * U) rs)"
      using pf(3) by (intro sum_list_mono) simp
    then show ?thesis by (simp add: wt sum_list_mult_const)
  qed
  have sp_lo: "weighted_total tls rs * L \<le> sum_list (map p rs)"
  proof -
    have "sum_list (map (\<lambda>r. l r * c r * L) rs) \<le> sum_list (map p rs)"
      using pf(2) by (intro sum_list_mono) simp
    then show ?thesis by (simp add: wt sum_list_mult_const)
  qed
  have w_le: "weighted_total tls rs \<le> 8 * catch_total rs"
  proof -
    have "sum_list (map (\<lambda>r. l r * c r) rs) \<le> sum_list (map (\<lambda>r. 8 * c r) rs)"
    proof (intro sum_list_mono)
      fix r assume r: "r \<in> set rs"
      have "l r \<le> 8" using lf(3)[OF r] hi by simp
      then show "l r * c r \<le> 8 * c r" using c0[OF r] by (intro mult_right_mono)
    qed
    then show ?thesis by (simp add: wt ct sum_list_const_mult)
  qed
  have ct0: "0 \<le> catch_total rs" unfolding ct using c0 by (intro sum_list_nonneg) auto
  have "catch_total rs \<le> 2 powi 1010"
  proof -
    have "(2::rat) powi 1000 \<le> 2 powi 1010" by (intro power_int_increasing) auto
    with tot show ?thesis by simp
  qed
  then have "(0 + sum_list (map c rs)) * (1 + unit_roundoff) ^ length (map c rs) < overflow_threshold"
    using Un Un0 unfolding ct U_def by (intro below_threshold[THEN ord_eq_less_trans[rotated]]) simp_all
  from foldl_fadd_bounds[OF order_refl _ this] cf(2) obtain t
    where t: "foldl fadd (Finite 0) (map Finite (map c rs)) = Finite t"
      "catch_total rs * L ^ length rs \<le> t" "t \<le> catch_total rs * U ^ length rs"
    unfolding ct U_def L_def by auto
  have "sum_list (map p rs) \<le> 2 powi 1010"
  proof -
    have "weighted_total tls rs * U \<le> 8 * catch_total rs * (4 / 3)"
      using w_le U43 U0 ct0 by (intro mult_mono) simp_all
    also have "\<dots> \<le> 16 * catch_total rs" using ct0 by simp
    also have "\<dots> \<le> 16 * 2 powi 1000" using tot by simp
    also have "\<dots> = 2 powi 4 * 2 powi 1000" by simp
    also have "\<dots> = 2 powi (4 + 1000)" by (rule power_int_add[symmetric]) simp
    also have "\<dots> \<le> 2 powi 1010" by (intro power_int_increasing) auto
    finally show ?thesis using sp_hi by simp
  qed
  then have "(0 + sum_list (map p rs)) * (1 + unit_roundoff) ^ length (map p rs) < overflow_threshold"
    using Un Un0 unfolding U_def by (intro below_threshold[THEN ord_eq_less_trans[rotated]]) simp_all
  from foldl_fadd_bounds[OF order_refl _ this] pf(4) obtain w
    where w: "foldl fadd (Finite 0) (map Finite (map p rs)) = Finite w"
      "sum_list (map p rs) * L ^ length rs \<le> w" "w \<le> sum_list (map p rs) * U ^ length rs"
    unfolding U_def L_def by auto
  have w_lo: "weighted_total tls rs * L ^ (length rs + 1) \<le> w"
  proof -
    have "weighted_total tls rs * L * L ^ length rs \<le> sum_list (map p rs) * L ^ length rs"
      using sp_lo L0 by (intro mult_right_mono) simp_all
    with w(2) show ?thesis by (simp add: mult.assoc)
  qed
  have w_hi: "w \<le> weighted_total tls rs * U ^ (length rs + 1)"
  proof -
    have "sum_list (map p rs) * U ^ length rs \<le> weighted_total tls rs * U * U ^ length rs"
      using sp_hi U0 by (intro mult_right_mono) simp_all
    with w(3) show ?thesis by (simp add: mult.assoc)
  qed
  show ?thesis
    using t w(1) w_lo w_hi unfolding mc mp U_def L_def by blast
qed

lemma float_lit_within:
  assumes "q = 5 / 2 \<or> 27 / 10 \<le> q" "q \<le> 22 / 5"
  shows "level_within (5 / 2) max_level (float_lit q)"
proof (cases "q = 5 / 2")
  case True
  have "round_double (5 / 2) = Finite (5 / 2)"
    using round_double_exact[of "5 / 2" 5 "- 1"] by (simp add: least_exp_def)
  moreover have "5 / 2 \<le> max_level"
    using unit_roundoff_pos by (simp add: max_level_def)
  ultimately show ?thesis
    unfolding True level_within_iff float_lit_def by blast
next
  case False
  with assms have q: "27 / 10 \<le> q" by simp
  have 1: "least_normal \<le> q" using least_normal_le_1 q by simp
  have "q \<le> 2 powi 1010"
  proof -
    have "q \<le> 2 powi 3" using assms(2) by simp
    also have "\<dots> \<le> 2 powi 1010" by (intro power_int_increasing) auto
    finally show ?thesis .
  qed
  then have 2: "q * (1 + unit_roundoff) < overflow_threshold"
    using unit_roundoff_pos unit_roundoff_less_1 by (intro below_threshold) simp_all
  from round_double_rel[OF 1 2] obtain l where l: "round_double q = Finite l"
    "q * (1 - unit_roundoff) \<le> l" "l \<le> q * (1 + unit_roundoff)" by blast
  have u: "unit_roundoff \<le> 1 / 27" by (simp add: unit_roundoff_def)
  have "5 / 2 \<le> 27 / 10 * (26 / 27 :: rat)" by simp
  also have "\<dots> \<le> q * (1 - unit_roundoff)" using q u by (intro mult_mono) simp_all
  finally have lo: "5 / 2 \<le> l" using l(2) by simp
  have "q * (1 + unit_roundoff) \<le> 22 / 5 * (1 + unit_roundoff)"
    using assms(2) unit_roundoff_pos by (intro mult_right_mono) simp_all
  with l(3) have hi: "l \<le> max_level" by (simp add: max_level_def)
  show ?thesis using l(1) lo hi by (simp add: level_within_iff float_lit_def)
qed

lemma TROPHIC_LEVELS_within:
  "levels_within (5 / 2) max_level TROPHIC_LEVELS"
  by (simp add: levels_within_def TROPHIC_LEVELS_def float_lit_within)

lemma iterrows_loop_not_hashable:
  "\<not> hashable_rows rs \<Longrightarrow> iterrows_loop tls (map coerce_row rs) (t, w, ms) = Inl unhashable_error"
proof (induction rs arbitrary: t w ms)
  case Nil
  then show ?case by (simp add: hashable_rows_def)
next
  case (Cons r rs)
  show ?case
  proof (cases "positive_catch r")
    case False
    with Cons.prems have "\<not> hashable_rows rs" by (simp add: hashable_rows_def)
    then show ?thesis using False Cons.IH by (simp add: iterrows_loop_skip)
  next
    case True
    show ?thesis
    proof (cases "species_name r")
      case Unhashable
      then show ?thesis using True by (simp add: iterrows_loop_unhashable)
    next
      case (Str name)
      with Cons.prems have nh: "\<not> hashable_rows rs" by (simp add: hashable_rows_def)
      show ?thesis
      proof (cases "map_of tls name")
        case None
        then show ?thesis
          using True Str Cons.IH[OF nh] by (simp add: iterrows_loop_unknown)
      next
        case (Some level)
        then have "lookup tls (species_name r) = Some level" using Str by simp
        then show ?thesis
          using True Cons.IH[OF nh] by (simp add: iterrows_loop_known)
      qed
    qed
  qed
qed

lemma returns_imp_hashable:
  assumes "a < length (heap s)" "set required_cols \<subseteq> set (columns (heap s ! a))"
    and "fst (calculate_mtl (DataFrame_at a) s) = Inr v"
  shows "hashable_rows (rows (heap s ! a))"
proof (rule ccontr)
  assume "\<not> hashable_rows (rows (heap s ! a))"
  from iterrows_loop_not_hashable[OF this] assms(3) show False
    unfolding calculate_mtl_DataFrame[OF assms(1,2) returns_imp_plain[OF assms]] by simp
qed

lemma catch_value_normal:
  "normal_catch r \<Longrightarrow> least_normal \<le> value_of (catch_of r)"
  by (auto simp: normal_catch_iff)

lemma catch_total_pos:
  assumes "rs \<noteq> []" "\<forall>r \<in> set rs. normal_catch r"
  shows "0 < catch_total rs"
proof -
  obtain r where r: "r \<in> set rs" using assms(1) by (cases rs) auto
  have n: "0 \<le> y" if "y \<in> set (map (\<lambda>r. value_of (catch_of r)) rs)" for y
  proof -
    from that obtain r' where "r' \<in> set rs" "y = value_of (catch_of r')" by auto
    then show ?thesis using assms(2) catch_value_normal[of r'] least_normal_pos by simp
  qed
  have "value_of (catch_of r) \<le> catch_total rs"
    unfolding catch_total_def using r n by (intro member_le_sum_list_rat) auto
  moreover have "0 < value_of (catch_of r)"
    using catch_value_normal[of r] assms(2) r least_normal_pos by simp
  ultimately show ?thesis by simp
qed

lemma weighted_total_bounds:
  assumes "levels_within lo hi tls" "\<forall>r \<in> set rs. known tls r \<and> normal_catch r"
  shows "lo * catch_total rs \<le> weighted_total tls rs"
    and "weighted_total tls rs \<le> hi * catch_total rs"
proof -
  have *: "lo * value_of (catch_of r) \<le> value_of (level_of tls r) * value_of (catch_of r)
         \<and> value_of (level_of tls r) * value_of (catch_of r) \<le> hi * value_of (catch_of r)"
    if "r \<in> set rs" for r
  proof -
    from known_level[OF assms(1), of r] assms(2) that obtain l
      where l: "level_of tls r = Finite l" "lo \<le> l" "l \<le> hi" by blast
    have "0 \<le> value_of (catch_of r)"
      using catch_value_normal[of r] assms(2) that least_normal_pos by simp
    then show ?thesis using l by (simp add: mult_right_mono)
  qed
  have "sum_list (map (\<lambda>r. lo * value_of (catch_of r)) rs)
      \<le> sum_list (map (\<lambda>r. value_of (level_of tls r) * value_of (catch_of r)) rs)"
    using * by (intro sum_list_mono) simp
  then show "lo * catch_total rs \<le> weighted_total tls rs"
    by (simp add: catch_total_def weighted_total_def sum_list_const_mult)
  have "sum_list (map (\<lambda>r. value_of (level_of tls r) * value_of (catch_of r)) rs)
      \<le> sum_list (map (\<lambda>r. hi * value_of (catch_of r)) rs)"
    using * by (intro sum_list_mono) simp
  then show "weighted_total tls rs \<le> hi * catch_total rs"
    by (simp add: catch_total_def weighted_total_def sum_list_const_mult)
qed

lemma quotient_accuracy:
  assumes lv: "levels_within lo hi tls" and lo: "2 \<le> lo" and hi: "hi \<le> 8"
    and rs: "\<forall>r \<in> set rs. known tls r \<and> normal_catch r"
    and ne: "rs \<noteq> []"
    and n: "length rs \<le> 2 ^ 30"
    and tot: "catch_total rs \<le> 2 powi 1000"
  shows "\<exists>q. \<not> feq (foldl fadd (Finite 0) (map catch_of rs)) (Finite 0)
       \<and> fdiv (foldl fadd (Finite 0) (map (\<lambda>r. fmul (level_of tls r) (catch_of r)) rs))
               (foldl fadd (Finite 0) (map catch_of rs)) = Inr (Finite q)
       \<and> weighted_total tls rs / catch_total rs
            * ((1 - unit_roundoff) ^ (length rs + 2) / (1 + unit_roundoff) ^ length rs) \<le> q
       \<and> q \<le> weighted_total tls rs / catch_total rs
            * ((1 + unit_roundoff) ^ (length rs + 2) / (1 - unit_roundoff) ^ length rs)"
proof -
  define U where "U = 1 + unit_roundoff"
  define L where "L = 1 - unit_roundoff"
  define k where "k = length rs"
  define Sc where "Sc = catch_total rs"
  define Sw where "Sw = weighted_total tls rs"
  from accumulators_accuracy[OF lv lo hi rs n tot] obtain t w
    where t: "foldl fadd (Finite 0) (map catch_of rs) = Finite t"
      and w: "foldl fadd (Finite 0) (map (\<lambda>r. fmul (level_of tls r) (catch_of r)) rs) = Finite w"
      and tb: "Sc * L ^ k \<le> t" "t \<le> Sc * U ^ k"
      and wb: "Sw * L ^ (k + 1) \<le> w" "w \<le> Sw * U ^ (k + 1)"
    unfolding U_def L_def k_def Sc_def Sw_def by blast
  have U1: "1 \<le> U" and U0: "0 < U" using unit_roundoff_pos by (simp_all add: U_def)
  have L0: "0 < L" and L1: "L \<le> 1"
    using unit_roundoff_less_1 unit_roundoff_pos by (simp_all add: L_def)
  have kn: "k \<le> 2 ^ 30 + 2" "k + 1 \<le> 2 ^ 30 + 2" using n by (simp_all add: k_def)
  have Uk: "U ^ k \<le> 4 / 3" "U ^ (k + 1) \<le> 4 / 3"
    unfolding U_def by (rule power_U_le[OF kn(1)], rule power_U_le[OF kn(2)])
  have Lk: "3 / 4 \<le> L ^ k" "3 / 4 \<le> L ^ (k + 1)"
    unfolding L_def by (rule power_L_ge[OF kn(1)], rule power_L_ge[OF kn(2)])
  have Uk0: "0 < U ^ k" "0 < U ^ (k + 1)" using U0 by simp_all
  have Lk0: "0 < L ^ k" "0 < L ^ (k + 1)" using L0 by simp_all
  have rs': "\<forall>r \<in> set rs. normal_catch r" using rs by simp
  have Sc0: "0 < Sc" unfolding Sc_def using ne rs' by (rule catch_total_pos)
  have Swb: "lo * Sc \<le> Sw" "Sw \<le> hi * Sc"
    unfolding Sc_def Sw_def using weighted_total_bounds[OF lv rs] by simp_all
  have Sw0: "0 < Sw"
  proof -
    have "0 < lo * Sc" using lo Sc0 by simp
    with Swb(1) show ?thesis by simp
  qed
  define m where "m = Sw / Sc"
  have m: "lo \<le> m" "m \<le> hi"
    using Swb Sc0 by (simp_all add: m_def pos_le_divide_eq pos_divide_le_eq)
  have m2: "2 \<le> m" "m \<le> 8" "0 < m" using m lo hi by simp_all
  have t0: "0 < t"
  proof -
    have "0 < Sc * L ^ k" using Sc0 Lk0 by simp
    with tb(1) show ?thesis by simp
  qed
  have w0: "0 \<le> w"
  proof -
    have "0 \<le> Sw * L ^ (k + 1)" using Sw0 Lk0 by simp
    with wb(1) show ?thesis by simp
  qed
  define x where "x = w / t"
  have x_hi: "x \<le> m * (U ^ (k + 1) / L ^ k)"
  proof -
    have "w / t \<le> (Sw * U ^ (k + 1)) / (Sc * L ^ k)"
      using w0 wb(2) tb(1) Sc0 Lk0 by (intro frac_le) simp_all
    then show ?thesis by (simp add: x_def m_def)
  qed
  have x_lo: "m * (L ^ (k + 1) / U ^ k) \<le> x"
  proof -
    have "(Sw * L ^ (k + 1)) / (Sc * U ^ k) \<le> w / t"
      using w0 wb(1) tb(2) t0 by (intro frac_le) simp_all
    then show ?thesis by (simp add: x_def m_def)
  qed
  have r1: "9 / 16 \<le> L ^ (k + 1) / U ^ k"
  proof -
    have "(3 / 4) / (4 / 3) \<le> L ^ (k + 1) / U ^ k"
      using Lk(2) Uk(1) Uk0(1) by (intro frac_le) simp_all
    then show ?thesis by simp
  qed
  have r2: "U ^ (k + 1) / L ^ k \<le> 16 / 9"
  proof -
    have "U ^ (k + 1) / L ^ k \<le> (4 / 3) / (3 / 4)"
      using Lk(1) Uk(2) Uk0(2) by (intro frac_le) simp_all
    then show ?thesis by simp
  qed
  have x1: "1 \<le> x"
  proof -
    have "1 \<le> 2 * (9 / 16 :: rat)" by simp
    also have "\<dots> \<le> m * (L ^ (k + 1) / U ^ k)" using m2(1) r1 by (intro mult_mono) simp_all
    finally show ?thesis using x_lo by simp
  qed
  have x16: "x \<le> 16"
  proof -
    have "m * (U ^ (k + 1) / L ^ k) \<le> 8 * (16 / 9)"
      using m2 r2 Uk0 Lk0 by (intro mult_mono) simp_all
    also have "\<dots> \<le> (16::rat)" by simp
    finally show ?thesis using x_hi by (rule order_trans[rotated])
  qed
  have 1: "least_normal \<le> x" using least_normal_le_1 x1 by simp
  have "x \<le> 2 powi 1010"
  proof -
    have "x \<le> 2 powi 4" using x16 by simp
    also have "\<dots> \<le> 2 powi 1010" by (intro power_int_increasing) auto
    finally show ?thesis .
  qed
  then have 2: "x * (1 + unit_roundoff) < overflow_threshold"
    using unit_roundoff_pos unit_roundoff_less_1 by (intro below_threshold) simp_all
  from round_double_rel[OF 1 2] obtain q where q: "round_double x = Finite q"
    "x * L \<le> q" "q \<le> x * U" unfolding U_def L_def by blast
  have q_hi: "q \<le> m * (U ^ (k + 2) / L ^ k)"
  proof -
    note q(3)
    also have "x * U \<le> m * (U ^ (k + 1) / L ^ k) * U" using x_hi U0 by (intro mult_right_mono) simp_all
    also have "\<dots> = m * (U ^ (k + 2) / L ^ k)" by simp
    finally show ?thesis .
  qed
  have q_lo: "m * (L ^ (k + 2) / U ^ k) \<le> q"
  proof -
    have "m * (L ^ (k + 2) / U ^ k) = m * (L ^ (k + 1) / U ^ k) * L" by simp
    also have "\<dots> \<le> x * L" using x_lo L0 by (intro mult_right_mono) simp_all
    also note q(2)
    finally show ?thesis .
  qed
  have "fdiv (Finite w) (Finite t) = Inr (Finite q)" using t0 q(1) by (simp add: x_def)
  moreover have "\<not> feq (Finite t) (Finite 0)" using t0 by simp
  ultimately show ?thesis
    using q_lo q_hi unfolding t w m_def Sw_def Sc_def k_def U_def L_def by blast
qed

lemma of_nat_unit_roundoff_le:
  assumes "k \<le> 2 ^ 32"
  shows "of_nat k * unit_roundoff \<le> 1 / 2 ^ 21"
proof -
  have "(of_nat k :: rat) \<le> of_nat (2 ^ 32)" using assms by (simp only: of_nat_le_iff)
  then have "of_nat k * unit_roundoff \<le> of_nat (2 ^ 32) * unit_roundoff"
    using unit_roundoff_pos by (intro mult_right_mono) simp_all
  also have "\<dots> = 1 / 2 ^ 21" by (simp add: unit_roundoff_def)
  finally show ?thesis .
qed

lemma ratio_lower:
  assumes "n \<le> 2 ^ 30"
  shows "1 - of_nat (2 * n + 2) * unit_roundoff
           \<le> (1 - unit_roundoff) ^ (n + 2) / (1 + unit_roundoff) ^ n"
proof -
  define u where "u = unit_roundoff"
  have u0: "0 \<le> u" and u1: "u \<le> 1"
    using unit_roundoff_pos unit_roundoff_less_1 by (simp_all add: u_def)
  define a where "a = 1 - of_nat (n + 2) * u"
  define b where "b = 1 - of_nat n * u"
  have k: "n \<le> 2 ^ 32" "n + 2 \<le> 2 ^ 32" using assms by simp_all
  have nu: "of_nat n * u \<le> 1 / 2 ^ 21" "of_nat (n + 2) * u \<le> 1 / 2 ^ 21"
    unfolding u_def
    by (rule of_nat_unit_roundoff_le[OF k(1)], rule of_nat_unit_roundoff_le[OF k(2)])
  have a0: "0 \<le> a" and b0: "0 < b" using nu by (simp_all add: a_def b_def)
  have A: "a \<le> (1 - u) ^ (n + 2)" unfolding a_def using u0 u1 by (rule Bernoulli_rat)
  have Un0: "0 < (1 + u) ^ n" using u0 by (intro zero_less_power) simp
  have "(1 + u) ^ n \<le> 1 / b"
    unfolding b_def using u0 b0 by (intro power_1_plus_le) (simp_all add: b_def)
  then have "b * (1 + u) ^ n \<le> 1" using b0 by (simp add: pos_le_divide_eq mult.commute)
  then have B: "b \<le> 1 / (1 + u) ^ n" using Un0 by (simp add: pos_le_divide_eq)
  have "1 - of_nat (2 * n + 2) * u \<le> a * b"
  proof -
    have "a * b = 1 - of_nat (2 * n + 2) * u + of_nat (n + 2) * u * (of_nat n * u)"
      by (simp add: a_def b_def algebra_simps)
    moreover have "0 \<le> of_nat (n + 2) * u * (of_nat n * u)" using u0 by simp
    ultimately show ?thesis by simp
  qed
  also have "a * b \<le> (1 - u) ^ (n + 2) * (1 / (1 + u) ^ n)"
    using A B a0 b0 by (intro mult_mono) simp_all
  finally show ?thesis by (simp add: u_def)
qed

lemma ratio_upper:
  assumes "n \<le> 2 ^ 30"
  shows "(1 + unit_roundoff) * ((1 + unit_roundoff) ^ (n + 2) / (1 - unit_roundoff) ^ n)
           * (1 - of_nat (2 * n + 3) * unit_roundoff) \<le> 1"
proof -
  define u where "u = unit_roundoff"
  have u0: "0 \<le> u" and u1: "u \<le> 1" and u1': "u < 1"
    using unit_roundoff_pos unit_roundoff_less_1 by (simp_all add: u_def)
  define a where "a = 1 - of_nat (n + 3) * u"
  define b where "b = 1 - of_nat n * u"
  define c where "c = 1 - of_nat (2 * n + 3) * u"
  have k: "n \<le> 2 ^ 32" "n + 3 \<le> 2 ^ 32" "2 * n + 3 \<le> 2 ^ 32" using assms by simp_all
  have nu: "of_nat n * u \<le> 1 / 2 ^ 21" "of_nat (n + 3) * u \<le> 1 / 2 ^ 21"
    "of_nat (2 * n + 3) * u \<le> 1 / 2 ^ 21"
    unfolding u_def
    by (rule of_nat_unit_roundoff_le[OF k(1)], rule of_nat_unit_roundoff_le[OF k(2)],
        rule of_nat_unit_roundoff_le[OF k(3)])
  have a0: "0 < a" and b0: "0 < b" and c0: "0 < c" using nu by (simp_all add: a_def b_def c_def)
  have Ln: "b \<le> (1 - u) ^ n" unfolding b_def using u0 u1 by (rule Bernoulli_rat)
  have Un: "(1 + u) ^ (n + 3) \<le> 1 / a"
    unfolding a_def using u0 a0 by (intro power_1_plus_le) (simp_all add: a_def)
  have Un0: "0 \<le> (1 + u) ^ (n + 3)" using u0 by simp
  have "(1 + u) * ((1 + u) ^ (n + 2) / (1 - u) ^ n) = (1 + u) ^ (n + 3) / (1 - u) ^ n"
    by (simp add: power_add power3_eq_cube power2_eq_square)
  also have "\<dots> \<le> (1 / a) / b"
    using Un Ln b0 a0 by (intro frac_le) simp_all
  finally have "(1 + u) * ((1 + u) ^ (n + 2) / (1 - u) ^ n) \<le> 1 / (a * b)" by simp
  then have "(1 + u) * ((1 + u) ^ (n + 2) / (1 - u) ^ n) * c \<le> 1 / (a * b) * c"
    using c0 by (intro mult_right_mono) simp_all
  also have "\<dots> \<le> 1"
  proof -
    have "a * b = c + of_nat (n + 3) * u * (of_nat n * u)"
      by (simp add: a_def b_def c_def algebra_simps)
    moreover have "0 \<le> of_nat (n + 3) * u * (of_nat n * u)" using u0 by simp
    ultimately have "c \<le> a * b" by simp
    moreover have "0 < a * b" using a0 b0 by simp
    ultimately show ?thesis by (simp add: pos_divide_le_eq)
  qed
  finally show ?thesis by (simp add: u_def c_def)
qed

lemma fle_NaN_right [simp]: "fle x NaN = False"
  by (cases x) simp_all

lemma max_level_le_8: "max_level \<le> 8"
  by (simp add: max_level_def unit_roundoff_def)


lemma round_double_overflow:
  assumes "overflow_threshold \<le> q"
  shows "round_double q = PInf"
proof -
  have q0: "0 < q" using assms overflow_threshold_pos by simp
  then have aq: "\<bar>q\<bar> = q" by simp
  define k where "k = ilog2 q"
  note b = ilog2_bounds[OF q0, folded k_def]
  have k: "1024 \<le> k"
  proof (rule ccontr)
    assume "\<not> 1024 \<le> k"
    then have "k + 1 \<le> 1024" by simp
    then have "(2::rat) powi (k + 1) \<le> 2 powi 1024" by (intro power_int_increasing) auto
    with b(2) assms show False unfolding overflow_threshold_def by simp
  qed
  define e where "e = k - 52"
  have e: "max (k - 52) least_exp = e" using k by (simp add: e_def least_exp_def)
  define m where "m = round_half_even (q / 2 powi e)"
  have "(2::rat) powi k = 2 powi (52 + e)" by (simp add: e_def)
  also have "\<dots> = 2 powi 52 * 2 powi e" by (rule power_int_add) simp
  finally have ke: "(2::rat) powi k = 2 powi 52 * 2 powi e" .
  have "of_int (2 ^ 52) \<le> q / 2 powi e"
    using b(1) unfolding ke by (simp add: pos_le_divide_eq)
  then have "2 ^ 52 \<le> m" unfolding m_def by (rule round_half_even_ge)
  then have "(of_int (2 ^ 52) :: rat) \<le> of_int m" by (simp only: of_int_le_iff)
  then have "2 powi 52 * 2 powi e \<le> of_int m * (2::rat) powi e"
    by (intro mult_right_mono) simp_all
  then have "2 powi k \<le> of_int m * (2::rat) powi e" by (simp only: ke)
  moreover have "(2::rat) powi 1024 \<le> 2 powi k" using k by (intro power_int_increasing) auto
  ultimately have "overflow_threshold \<le> of_int m * (2::rat) powi e"
    unfolding overflow_threshold_def by simp
  then show ?thesis
    using round_double_unfold[of k q, unfolded aq, OF b]
    unfolding Let_def e m_def[symmetric] by simp
qed

lemma round_double_overflow_neg:
  assumes "q \<le> - overflow_threshold"
  shows "round_double q = NInf"
proof -
  have q0: "0 < - q" using assms overflow_threshold_pos by simp
  then have aq: "\<bar>q\<bar> = - q" by simp
  define k where "k = ilog2 (- q)"
  note b = ilog2_bounds[OF q0, folded k_def]
  have k: "1024 \<le> k"
  proof (rule ccontr)
    assume "\<not> 1024 \<le> k"
    then have "k + 1 \<le> 1024" by simp
    then have "(2::rat) powi (k + 1) \<le> 2 powi 1024" by (intro power_int_increasing) auto
    with b(2) assms show False unfolding overflow_threshold_def by simp
  qed
  define e where "e = k - 52"
  have e: "max (k - 52) least_exp = e" using k by (simp add: e_def least_exp_def)
  define m where "m = round_half_even (q / 2 powi e)"
  have "(2::rat) powi k = 2 powi (52 + e)" by (simp add: e_def)
  also have "\<dots> = 2 powi 52 * 2 powi e" by (rule power_int_add) simp
  finally have ke: "(2::rat) powi k = 2 powi 52 * 2 powi e" .
  have "2 powi 52 * 2 powi e \<le> - q" using b(1) unfolding ke .
  then have "q \<le> - (2 powi 52) * 2 powi e" by simp
  then have "q / 2 powi e \<le> of_int (- (2 ^ 52))"
    by (simp add: pos_divide_le_eq)
  then have "m \<le> - (2 ^ 52)" unfolding m_def by (rule round_half_even_le)
  then have "(of_int m :: rat) \<le> of_int (- (2 ^ 52))" by (simp only: of_int_le_iff)
  then have "of_int m * (2::rat) powi e \<le> of_int (- (2 ^ 52)) * 2 powi e"
    by (intro mult_right_mono) simp_all
  then have "of_int m * (2::rat) powi e \<le> - (2 powi k)" by (simp add: ke)
  moreover have "(2::rat) powi 1024 \<le> 2 powi k" using k by (intro power_int_increasing) auto
  ultimately have r: "of_int m * (2::rat) powi e \<le> - overflow_threshold"
    unfolding overflow_threshold_def by simp
  then have "\<not> overflow_threshold \<le> of_int m * (2::rat) powi e"
    using overflow_threshold_pos by simp
  with r show ?thesis
    using round_double_unfold[of k q, unfolded aq, OF b]
    unfolding Let_def e m_def[symmetric] by simp
qed

lemma ratio_upper':
  assumes "n \<le> 2 ^ 30"
  shows "(1 + unit_roundoff) ^ (n + 2) / (1 - unit_roundoff) ^ n
           * (1 - of_nat (2 * n + 3) * unit_roundoff) \<le> 1"
proof -
  define A where "A = (1 + unit_roundoff) ^ (n + 2) / (1 - unit_roundoff) ^ n"
  define c where "c = 1 - of_nat (2 * n + 3) * unit_roundoff"
  have k: "2 * n + 3 \<le> 2 ^ 32" using assms by simp
  have "of_nat (2 * n + 3) * unit_roundoff \<le> 1 / 2 ^ 21" by (rule of_nat_unit_roundoff_le[OF k])
  then have c0: "0 \<le> c" by (simp add: c_def)
  have A0: "0 \<le> A"
    unfolding A_def using unit_roundoff_pos unit_roundoff_less_1 by simp
  have "A * c = 1 * (A * c)" by simp
  also have "\<dots> \<le> (1 + unit_roundoff) * (A * c)"
    using A0 c0 unit_roundoff_pos by (intro mult_right_mono) simp_all
  also have "\<dots> = (1 + unit_roundoff) * A * c" by simp
  also have "\<dots> \<le> 1" unfolding A_def c_def using assms by (rule ratio_upper)
  finally show ?thesis by (simp add: A_def c_def)
qed

text \<open>The returned value against the exact weighted mean of the rows.\<close>

lemma mean_accuracy:
  assumes lv: "levels_within 2 8 tls"
    and rs: "\<forall>r \<in> set rs. known tls r \<and> normal_catch r"
    and ne: "rs \<noteq> []"
    and n: "length rs \<le> 2 ^ 30"
    and tot: "catch_total rs \<le> 2 powi 1000"
  shows "\<exists>q. fdiv (foldl fadd (Finite 0) (map (\<lambda>r. fmul (level_of tls r) (catch_of r)) rs))
               (foldl fadd (Finite 0) (map catch_of rs)) = Inr (Finite q)
       \<and> weighted_total tls rs / catch_total rs
            * (1 - of_nat (2 * length rs + 2) * unit_roundoff) \<le> q
       \<and> q * (1 - of_nat (2 * length rs + 3) * unit_roundoff)
            \<le> weighted_total tls rs / catch_total rs"
proof -
  define k where "k = length rs"
  define m where "m = weighted_total tls rs / catch_total rs"
  define A where "A = (1 + unit_roundoff) ^ (k + 2) / (1 - unit_roundoff) ^ k"
  define B where "B = (1 - unit_roundoff) ^ (k + 2) / (1 + unit_roundoff) ^ k"
  define c where "c = 1 - of_nat (2 * k + 3) * unit_roundoff"
  from quotient_accuracy[OF lv _ _ rs ne n tot] obtain q
    where q: "fdiv (foldl fadd (Finite 0) (map (\<lambda>r. fmul (level_of tls r) (catch_of r)) rs))
            (foldl fadd (Finite 0) (map catch_of rs)) = Inr (Finite q)"
      "m * B \<le> q" "q \<le> m * A"
    unfolding m_def A_def B_def k_def by auto
  have kn: "k \<le> 2 ^ 30" using n by (simp add: k_def)
  have Sc0: "0 < catch_total rs" using ne rs by (intro catch_total_pos) simp_all
  have "2 \<le> m"
    using weighted_total_bounds(1)[OF lv rs] Sc0 by (simp add: m_def pos_le_divide_eq)
  then have m0: "0 \<le> m" by simp
  have k3: "2 * k + 3 \<le> 2 ^ 32" using kn by simp
  have "of_nat (2 * k + 3) * unit_roundoff \<le> 1 / 2 ^ 21" by (rule of_nat_unit_roundoff_le[OF k3])
  then have c0: "0 \<le> c" by (simp add: c_def)
  have "m * (1 - of_nat (2 * k + 2) * unit_roundoff) \<le> m * B"
    unfolding B_def using m0 ratio_lower[OF kn] by (intro mult_left_mono)
  with q(2) have lo: "m * (1 - of_nat (2 * k + 2) * unit_roundoff) \<le> q" by simp
  have "q * c \<le> m * A * c" using q(3) c0 by (intro mult_right_mono)
  also have "\<dots> = m * (A * c)" by simp
  also have "\<dots> \<le> m * 1"
    unfolding A_def c_def using m0 ratio_upper'[OF kn] by (intro mult_left_mono)
  finally have hi: "q * c \<le> m" by simp
  show ?thesis using q(1) lo hi unfolding m_def c_def k_def by blast
qed

lemma normal_catch_mk_row: "1 \<le> c \<Longrightarrow> normal_catch (mk_row name c)"
  using least_normal_le_1 by (simp add: normal_catch_iff catch_of_def mk_row_def)

lemma scenario_A_rows:
  "rows (heap (initial_state [scenario_A]) ! 0)
     = [mk_row ''Atlantic cod'' 100, mk_row ''Pacific sardine'' 200, mk_row ''Bluefin tuna'' 50]"
  by (simp add: initial_state_def scenario_A_def mk_frame_def)

lemma scenario_A_known:
  "\<forall>r \<in> set (rows (heap (initial_state [scenario_A]) ! 0)).
     known TROPHIC_LEVELS r \<and> positive_catch r \<and> is_double (catch_of r)"
  unfolding scenario_A_rows
  by (simp add: mk_row_def known_def known_scenario_A positive_catch_def catch_of_def
        round_100 round_200 round_50)

lemma le_powi_1000: "x \<le> 1024 \<Longrightarrow> x \<le> (2::rat) powi 1000"
proof -
  assume "x \<le> 1024"
  also have "(1024::rat) = 2 powi 10" by simp
  also have "\<dots> \<le> 2 powi 1000" by (intro power_int_increasing) auto
  finally show ?thesis .
qed

lemma levels_within_weaken:
  "levels_within lo hi tls \<Longrightarrow> lo' \<le> lo \<Longrightarrow> hi \<le> hi' \<Longrightarrow> levels_within lo' hi' tls"
  by (fastforce simp: levels_within_def level_within_iff list_all_iff)

lemma scenario_A_catch_total:
  "catch_total (rows (heap (initial_state [scenario_A]) ! 0)) = 350"
  unfolding scenario_A_rows by (simp add: catch_total_def catch_of_def mk_row_def)


lemma huge_catch_pos: "0 < huge_catch"
  by (simp add: huge_catch_def)

lemma round_huge_catch: "round_double huge_catch = Finite huge_catch"
  using round_double_exact[of huge_catch "2 ^ 52" 971]
  by (simp add: huge_catch_def least_exp_def)

lemma round_huge_product: "round_double (7 * huge_catch / 2) = PInf"
  by (rule round_double_overflow) (simp add: overflow_threshold_def huge_catch_def)

lemma scenario_A_contributing:
  "contributing TROPHIC_LEVELS (rows (heap (initial_state [scenario_A]) ! 0))
     = rows (heap (initial_state [scenario_A]) ! 0)"
  using scenario_A_known by (intro contributing_all) simp


lemma scenario_A_plain: "plain_frame (heap (initial_state [scenario_A]) ! 0)"
  by (simp add: initial_state_def scenario_A_def plain_mk_frame)

lemma round_huge_negative: "round_double (of_int huge_negative) = NInf"
  by (rule round_double_overflow_neg) (simp add: huge_negative_def overflow_threshold_def)

lemma overflows_huge_negative: "overflows (Py_int huge_negative)"
  by (simp add: round_huge_negative)

lemma scenario_A_value:
  "fst (calculate_mtl (DataFrame_at 0) (initial_state [scenario_A])) = Inr (float_lit (32 / 10))
   \<and> fdiv (fadd (fadd (fmul (float_lit (35 / 10)) (Finite 100))
                         (fmul (float_lit (28 / 10)) (Finite 200)))
                   (fmul (float_lit (42 / 10)) (Finite 50)))
             (Finite 350)
       = Inr (float_lit (32 / 10))"
proof -
  let ?s = "initial_state [scenario_A]"
  let ?rs = "[mk_row ''Atlantic cod'' 100, mk_row ''Pacific sardine'' 200,
              mk_row ''Bluefin tuna'' 50]"
  have 1: "0 < length (heap ?s)" by (simp add: initial_state_def)
  have 2: "set required_cols \<subseteq> set (columns (heap ?s ! 0))"
    by (simp add: initial_state_def scenario_A_def mk_frame_def required_cols_def)
  have rs: "rows (heap ?s ! 0) = ?rs"
    by (simp add: initial_state_def scenario_A_def mk_frame_def)
  have 3: "hashable_rows (rows (heap ?s ! 0))"
    unfolding rs by (simp add: hashable_rows_def mk_row_def)
  have tls: "trophic_levels ?s = TROPHIC_LEVELS" by (simp add: initial_state_def)
  have c: "contributing TROPHIC_LEVELS ?rs = ?rs"
    by (simp add: contributing_def known_def known_scenario_A positive_catch_def catch_of_def
          mk_row_def)
  have t: "foldl fadd (Finite 0) (map catch_of ?rs) = Finite 350"
    by (simp add: catch_of_def mk_row_def round_100 round_300 round_350)
  have w: "foldl fadd (Finite 0) (map (\<lambda>r. fmul (level_of TROPHIC_LEVELS r) (catch_of r)) ?rs)
      = Finite 1120"
    by (simp add: catch_of_def mk_row_def level_of_def known_scenario_A float_lit_35 float_lit_28
          float_lit_42 mul_28_200 mul_42_50 round_350 round_910 round_1120)
  have e: "fdiv (fadd (fadd (fmul (float_lit (35 / 10)) (Finite 100))
                         (fmul (float_lit (28 / 10)) (Finite 200)))
                   (fmul (float_lit (42 / 10)) (Finite 50)))
             (Finite 350)
       = Inr (float_lit (32 / 10))"
    by (simp add: float_lit_35 float_lit_28 float_lit_42 mul_28_200 mul_42_50 round_350
          round_910 round_1120) (simp add: float_lit_def)
  have "fst (calculate_mtl (DataFrame_at 0) ?s) = Inr (float_lit (32 / 10))"
    unfolding calculate_mtl_hashable[OF 1 2 scenario_A_plain 3] fst_finish rs tls c t w
    by (simp add: float_lit_def)
  with e show ?thesis by (rule conjI[rotated])
qed


section \<open>Structural failures\<close>

text \<open>
  C3: an argument that is no DataFrame fails with the TypeError, a DataFrame that lacks
  \<^verbatim>\<open>species_name\<close> or \<^verbatim>\<open>catch_kg\<close> fails with the ValueError that names the required
  columns; the two errors differ, and both are raised before anything else happens: the
  state is the one before the call (no copy, no log record).
\<close>

theorem structural_failures:
  "calculate_mtl Non_DataFrame s = (Inl not_dataframe_error, s)
   \<and> (a < length (heap s) \<and> \<not> set required_cols \<subseteq> set (columns (heap s ! a))
        \<longrightarrow> calculate_mtl (DataFrame_at a) s = (Inl missing_columns_error, s))
   \<and> not_dataframe_error \<noteq> missing_columns_error
   \<and> (\<exists>m. not_dataframe_error = TypeError m)
   \<and> (\<exists>m. missing_columns_error = ValueError (Lit ''DataFrame must contain columns '' # m))"
  by (simp add: calculate_mtl_def not_dataframe_error_def missing_columns_error_def)

theorem structural_failures_witness:
  "calculate_mtl Non_DataFrame (initial_state []) = (Inl not_dataframe_error, initial_state [])
   \<and> calculate_mtl (DataFrame_at 0) (initial_state [scenario_D])
      = (Inl missing_columns_error, initial_state [scenario_D])"
  using structural_failures [of "initial_state [scenario_D]" 0]
    structural_failures [of "initial_state []" 0]
  by (simp add: initial_state_def required_cols_def scenario_D_def)

section \<open>Rows that do not count\<close>






section \<open>Unmatched species\<close>




section \<open>No other exception\<close>

text \<open>
  C6 as stated fails, in four ways. A species cell that holds an unhashable object (a
  list) next to a positive catch makes the membership test raise a \<^verbatim>\<open>TypeError\<close> inside
  the loop. A complex catch passes the coercion and makes \<^verbatim>\<open>catch <= 0\<close> raise a
  \<^verbatim>\<open>TypeError\<close>. An int outside the range of a float makes \<^verbatim>\<open>pd.to_numeric\<close> raise an
  \<^verbatim>\<open>OverflowError\<close>. A frame that has the label \<^verbatim>\<open>catch_kg\<close> twice passes the check of the
  columns and makes \<^verbatim>\<open>pd.to_numeric\<close> raise a \<^verbatim>\<open>TypeError\<close>. None of these is one of the
  three specified failures.
\<close>

theorem other_exceptions_counterexample:
  "fst (calculate_mtl (DataFrame_at 0) (initial_state [unhashable_frame])) = Inl unhashable_error
   \<and> fst (calculate_mtl (DataFrame_at 0) (initial_state [complex_frame]))
       = Inl not_comparable_error
   \<and> fst (calculate_mtl (DataFrame_at 0) (initial_state [huge_int_frame])) = Inl overflow_error
   \<and> fst (calculate_mtl (DataFrame_at 0) (initial_state [repeated_label_frame]))
       = Inl not_series_error
   \<and> {unhashable_error, not_comparable_error, overflow_error, not_series_error}
       \<inter> {not_dataframe_error, missing_columns_error, no_valid_catch_error} = {}"
proof -
  have 1: "fst (calculate_mtl (DataFrame_at 0) (initial_state [unhashable_frame]))
      = Inl unhashable_error"
    by (simp add: calculate_mtl_def initial_state_def unhashable_frame_def mk_frame_def
          required_cols_def to_numeric_def setitem_catch_kg_def iterrows_def
          getitem_species_name_def iterrows_loop.simps(2) Let_def)
  have 2: "fst (calculate_mtl (DataFrame_at 0) (initial_state [complex_frame]))
      = Inl not_comparable_error"
    by (simp add: calculate_mtl_def initial_state_def complex_frame_def mk_frame_def
          required_cols_def to_numeric_def setitem_catch_kg_def iterrows_def
          getitem_species_name_def iterrows_loop.simps(2) Let_def)
  have 3: "fst (calculate_mtl (DataFrame_at 0) (initial_state [huge_int_frame]))
      = Inl overflow_error"
    by (simp add: calculate_mtl_def initial_state_def huge_int_frame_def mk_frame_def
          required_cols_def to_numeric_def round_huge_negative Let_def)
  have 4: "fst (calculate_mtl (DataFrame_at 0) (initial_state [repeated_label_frame]))
      = Inl not_series_error"
    by (simp add: calculate_mtl_def initial_state_def repeated_label_frame_def
          required_cols_def Let_def)
  have 5: "{unhashable_error, not_comparable_error, overflow_error, not_series_error}
       \<inter> {not_dataframe_error, missing_columns_error, no_valid_catch_error} = {}"
    by (simp add: unhashable_error_def not_comparable_error_def overflow_error_def
          not_series_error_def not_dataframe_error_def missing_columns_error_def
          no_valid_catch_error_def)
  from 1 2 3 4 5 show ?thesis by blast
qed

text \<open>
  C6, amended: when a frame with both columns is plain (neither of the two labels is
  repeated, and every catch cell is a float, a text or an int in the range of a float)
  and its rows with a positive catch have hashable species (strings), a call returns a
  float or fails with the error about no valid catch data; an input that is no DataFrame
  or lacks a column fails with one of the two structural errors. On such input neither
  the coercion, the comparison of the catch, the lookup nor the division can raise.
\<close>

theorem no_other_exception:
  assumes "a < length (heap s) \<and> set required_cols \<subseteq> set (columns (heap s ! a))
             \<longrightarrow> plain_frame (heap s ! a) \<and> hashable_rows (rows (heap s ! a))"
  shows "((\<exists>v. fst (calculate_mtl (DataFrame_at a) s) = Inr v)
          \<or> fst (calculate_mtl (DataFrame_at a) s)
              \<in> {Inl not_dataframe_error, Inl missing_columns_error, Inl no_valid_catch_error})
         \<and> fst (calculate_mtl Non_DataFrame s) = Inl not_dataframe_error"
proof (cases "a < length (heap s) \<and> set required_cols \<subseteq> set (columns (heap s ! a))")
  case False
  then show ?thesis by (auto simp: calculate_mtl_def)
next
  case True
  then have a: "a < length (heap s)"
    and c: "set required_cols \<subseteq> set (columns (heap s ! a))" by simp_all
  from True assms have p: "plain_frame (heap s ! a)"
    and h: "hashable_rows (rows (heap s ! a))" by simp_all
  have "fst (calculate_mtl Non_DataFrame s) = Inl not_dataframe_error"
    by (simp add: calculate_mtl_def)
  then show ?thesis
    unfolding calculate_mtl_hashable[OF a c p h]
    using fst_finish_cases by blast
qed

theorem no_other_exception_witness:
  "plain_frame scenario_B \<and> hashable_rows (rows scenario_B)
   \<and> ((\<exists>v. fst (calculate_mtl (DataFrame_at 0) (initial_state [scenario_B])) = Inr v)
        \<or> fst (calculate_mtl (DataFrame_at 0) (initial_state [scenario_B]))
             \<in> {Inl not_dataframe_error, Inl missing_columns_error, Inl no_valid_catch_error})"
proof -
  have 1: "hashable_rows (rows scenario_B)"
    by (simp add: hashable_rows_def scenario_B_def mk_frame_def mk_row_def)
  have p: "plain_frame scenario_B" by (simp add: scenario_B_def plain_mk_frame)
  from 1 p have 2: "0 < length (heap (initial_state [scenario_B]))
        \<and> set required_cols \<subseteq> set (columns (heap (initial_state [scenario_B]) ! 0))
      \<longrightarrow> plain_frame (heap (initial_state [scenario_B]) ! 0)
          \<and> hashable_rows (rows (heap (initial_state [scenario_B]) ! 0))"
    by (simp add: initial_state_def)
  from 1 p no_other_exception[OF 2] show ?thesis by simp
qed

section \<open>Frame\<close>

text \<open>
  C8: a call writes to no DataFrame that existed before it (the coerced column belongs to
  a copy at a fresh address), leaves \<^verbatim>\<open>TROPHIC_LEVELS\<close> as it was, and adds to the log
  nothing or the one warning about missing species; this holds whether the call returns
  or fails.
\<close>

theorem no_mutation:
  "take (length (heap s)) (heap (snd (calculate_mtl catch_df s))) = heap s
   \<and> trophic_levels (snd (calculate_mtl catch_df s)) = trophic_levels s
   \<and> (\<exists>ms. logger (snd (calculate_mtl catch_df s))
             = logger s @ (if ms = [] then [] else [missing_species_warning ms]))"
proof (cases catch_df)
  case Non_DataFrame
  then show ?thesis by (auto simp: calculate_mtl_def intro: exI[of _ "[]"])
next
  case (DataFrame_at a)
  show ?thesis
  proof (cases "a < length (heap s) \<and> set required_cols \<subseteq> set (columns (heap s ! a))")
    case False
    then show ?thesis using DataFrame_at by (auto simp: calculate_mtl_def intro: exI[of _ "[]"])
  next
    case True
    let ?df = "heap s ! a"
    show ?thesis
    proof (cases "count_list (columns ?df) ''catch_kg'' = 1")
      case False
      then have "calculate_mtl catch_df s = (Inl not_series_error, s\<lparr>heap := heap s @ [?df]\<rparr>)"
        using DataFrame_at True by (simp add: calculate_mtl_def Let_def)
      then show ?thesis by (auto intro: exI[of _ "[]"])
    next
      case one: True
      show ?thesis
      proof (cases "to_numeric (map catch_kg (rows ?df))")
        case (Inl e)
        then have "calculate_mtl catch_df s = (Inl e, s\<lparr>heap := heap s @ [?df]\<rparr>)"
          using DataFrame_at True one by (simp add: calculate_mtl_def Let_def)
        then show ?thesis by (auto intro: exI[of _ "[]"])
      next
        case (Inr col)
        let ?s2 = "s\<lparr>heap := heap s @ [setitem_catch_kg ?df col]\<rparr>"
        have c: "calculate_mtl catch_df s =
           (case iterrows_loop (trophic_levels s) (iterrows ?df col) (Finite 0, Finite 0, []) of
              Inl e \<Rightarrow> (Inl e, ?s2)
            | Inr acc \<Rightarrow> finish ?s2 acc)"
          using DataFrame_at True one Inr
          by (simp add: calculate_mtl_def Let_def iterrows_setitem)
        show ?thesis
        proof (cases "iterrows_loop (trophic_levels s) (iterrows ?df col) (Finite 0, Finite 0, [])")
          case (Inl e)
          then show ?thesis unfolding c by (auto intro: exI[of _ "[]"])
        next
          case (Inr acc)
          obtain t w ms where acc: "acc = (t, w, ms)" by (cases acc)
          show ?thesis unfolding c Inr acc by (auto simp: finish_logger)
        qed
      qed
    qed
  qed
qed

theorem no_mutation_witness:
  "take 1 (heap (snd (calculate_mtl (DataFrame_at 0) (initial_state [scenario_B]))))
     = [scenario_B]
   \<and> trophic_levels (snd (calculate_mtl (DataFrame_at 0) (initial_state [scenario_B])))
     = TROPHIC_LEVELS"
  using no_mutation[of "initial_state [scenario_B]" "DataFrame_at 0"]
  by (simp add: initial_state_def)

section \<open>The weighted mean\<close>

text \<open>
  C1 as stated fails: a single row (Atlantic cod, \<open>2 ^ 1023\<close>) has a positive float catch
  and a known species, its exact weighted mean is 3.5, and the call returns \<open>inf\<close>, since
  the product \<open>3.5 * 2 ^ 1023\<close> overflows.
\<close>

theorem overflow_counterexample:
  "positive_catch (mk_row ''Atlantic cod'' huge_catch)
   \<and> is_double (catch_of (mk_row ''Atlantic cod'' huge_catch))
   \<and> known TROPHIC_LEVELS (mk_row ''Atlantic cod'' huge_catch)
   \<and> fst (calculate_mtl (DataFrame_at 0) (initial_state [huge_frame])) = Inr PInf
   \<and> weighted_total TROPHIC_LEVELS (rows huge_frame) / catch_total (rows huge_frame) = 7 / 2"
proof -
  let ?s = "initial_state [huge_frame]"
  let ?r = "mk_row ''Atlantic cod'' huge_catch"
  have 1: "0 < length (heap ?s)" by (simp add: initial_state_def)
  have 2: "set required_cols \<subseteq> set (columns (heap ?s ! 0))"
    by (simp add: initial_state_def huge_frame_def mk_frame_def required_cols_def)
  have rs: "rows (heap ?s ! 0) = [?r]"
    by (simp add: initial_state_def huge_frame_def mk_frame_def)
  have 3: "hashable_rows (rows (heap ?s ! 0))"
    unfolding rs by (simp add: hashable_rows_def mk_row_def)
  have pl: "plain_frame (heap ?s ! 0)"
    by (simp add: initial_state_def huge_frame_def plain_mk_frame)
  have tls: "trophic_levels ?s = TROPHIC_LEVELS" by (simp add: initial_state_def)
  have p: "positive_catch ?r"
    using huge_catch_pos by (simp add: positive_catch_def catch_of_def mk_row_def)
  have d: "is_double (catch_of ?r)"
    by (simp add: catch_of_def mk_row_def round_huge_catch)
  have k: "known TROPHIC_LEVELS ?r" by (simp add: known_def mk_row_def known_scenario_A)
  have c: "contributing TROPHIC_LEVELS [?r] = [?r]" using p k by (simp add: contributing_def)
  have res: "fst (calculate_mtl (DataFrame_at 0) ?s) = Inr PInf"
    unfolding calculate_mtl_hashable[OF 1 2 pl 3] fst_finish rs tls c
    using huge_catch_pos
    by (simp add: catch_of_def mk_row_def level_of_def known_scenario_A float_lit_35
          round_huge_catch round_huge_product signed_inf_def)
  have m: "weighted_total TROPHIC_LEVELS (rows huge_frame) / catch_total (rows huge_frame) = 7 / 2"
    using huge_catch_pos
    by (simp add: huge_frame_def mk_frame_def weighted_total_def catch_total_def catch_of_def
          mk_row_def level_of_def known_scenario_A float_lit_35)
  from p d k res m show ?thesis by blast
qed

text \<open>
  C1, amended: take a non-empty frame with both columns that is plain (neither of the two
  labels is repeated, and every catch cell is a float, a text or an int in the range of a
  float), in which every species is a key of the table and every catch after coercion is
  a positive float. The call returns, and what it returns is the quotient of the sum of
  the products level times catch by the sum of the catches, over all rows in order, each
  product, sum and the quotient being the float operation of the source.
  When moreover the levels of the table lie between 2 and 8, there are at most \<open>2 ^ 30\<close>
  rows, and the catches are finite, at least \<open>2 ^ -1022\<close> each and at most \<open>2 ^ 1000\<close> in
  sum, the returned value \<open>q\<close> is finite and agrees with the exact weighted mean \<open>m\<close> up to
  rounding: \<open>m * (1 - (2 n + 2) * 2 ^ -53) \<le> q\<close> and \<open>q * (1 - (2 n + 3) * 2 ^ -53) \<le> m\<close>
  for \<open>n\<close> rows.
\<close>

theorem weighted_mean:
  assumes "a < length (heap s)" "set required_cols \<subseteq> set (columns (heap s ! a))"
    and "plain_frame (heap s ! a)"
    and "rows (heap s ! a) \<noteq> []"
    and "\<forall>r \<in> set (rows (heap s ! a)).
           known (trophic_levels s) r \<and> positive_catch r \<and> is_double (catch_of r)"
  shows "fst (calculate_mtl (DataFrame_at a) s)
           = fdiv (foldl fadd (Finite 0)
                     (map (\<lambda>r. fmul (level_of (trophic_levels s) r) (catch_of r))
                        (rows (heap s ! a))))
                  (foldl fadd (Finite 0) (map catch_of (rows (heap s ! a))))
         \<and> (\<exists>mtl. fst (calculate_mtl (DataFrame_at a) s) = Inr mtl)
         \<and> (levels_within 2 8 (trophic_levels s)
              \<and> list_all normal_catch (rows (heap s ! a))
              \<and> length (rows (heap s ! a)) \<le> 2 ^ 30
              \<and> catch_total (rows (heap s ! a)) \<le> 2 powi 1000
            \<longrightarrow> (\<exists>q. fst (calculate_mtl (DataFrame_at a) s) = Inr (Finite q)
                  \<and> weighted_total (trophic_levels s) (rows (heap s ! a))
                        / catch_total (rows (heap s ! a))
                      * (1 - of_nat (2 * length (rows (heap s ! a)) + 2) * unit_roundoff) \<le> q
                  \<and> q * (1 - of_nat (2 * length (rows (heap s ! a)) + 3) * unit_roundoff)
                      \<le> weighted_total (trophic_levels s) (rows (heap s ! a))
                           / catch_total (rows (heap s ! a))))"
proof -
  let ?rs = "rows (heap s ! a)"
  let ?tls = "trophic_levels s"
  have h: "hashable_rows ?rs"
    using assms(5) by (auto simp: hashable_rows_def list_all_iff known_def)
  have c: "contributing ?tls ?rs = ?rs"
    using assms(5) by (intro contributing_all) simp
  have d: "\<forall>r \<in> set ?rs. is_double (catch_of r)" using assms(5) by simp
  have p: "pos (foldl fadd (Finite 0) (map catch_of ?rs))"
    using total_catch_pos[OF d, of ?tls] assms(4) unfolding c by simp
  have 1: "fst (calculate_mtl (DataFrame_at a) s)
      = fdiv (foldl fadd (Finite 0) (map (\<lambda>r. fmul (level_of ?tls r) (catch_of r)) ?rs))
             (foldl fadd (Finite 0) (map catch_of ?rs))"
    unfolding calculate_mtl_hashable[OF assms(1,2,3) h] c fst_finish
    using pos_not_zero[OF p] by simp
  have 2: "\<exists>mtl. fst (calculate_mtl (DataFrame_at a) s) = Inr mtl"
    unfolding 1 using pos_fdiv[OF p] by simp
  have 3: "\<exists>q. fst (calculate_mtl (DataFrame_at a) s) = Inr (Finite q)
      \<and> weighted_total ?tls ?rs / catch_total ?rs
           * (1 - of_nat (2 * length ?rs + 2) * unit_roundoff) \<le> q
      \<and> q * (1 - of_nat (2 * length ?rs + 3) * unit_roundoff)
           \<le> weighted_total ?tls ?rs / catch_total ?rs"
    if lv: "levels_within 2 8 ?tls" and nc: "list_all normal_catch ?rs"
      and n: "length ?rs \<le> 2 ^ 30" and tot: "catch_total ?rs \<le> 2 powi 1000"
  proof -
    have kn: "\<forall>r \<in> set ?rs. known ?tls r \<and> normal_catch r"
      using assms(5) nc by (simp add: list_all_iff)
    from mean_accuracy[OF lv kn assms(4) n tot] show ?thesis unfolding 1 .
  qed
  show ?thesis using 1 2 3 by blast
qed


theorem weighted_mean_witness:
  "plain_frame scenario_A
   \<and> rows scenario_A \<noteq> []
   \<and> list_all (\<lambda>r. known TROPHIC_LEVELS r \<and> positive_catch r \<and> is_double (catch_of r))
         (rows scenario_A)
   \<and> levels_within 2 8 TROPHIC_LEVELS
   \<and> list_all normal_catch (rows scenario_A)
   \<and> (\<exists>q. fst (calculate_mtl (DataFrame_at 0) (initial_state [scenario_A])) = Inr (Finite q)
         \<and> weighted_total TROPHIC_LEVELS (rows scenario_A) / catch_total (rows scenario_A)
             * (1 - 8 * unit_roundoff) \<le> q
         \<and> q * (1 - 9 * unit_roundoff)
             \<le> weighted_total TROPHIC_LEVELS (rows scenario_A) / catch_total (rows scenario_A))"
proof -
  let ?s = "initial_state [scenario_A]"
  have r: "rows (heap ?s ! 0) = rows scenario_A" by (simp add: initial_state_def)
  have t: "trophic_levels ?s = TROPHIC_LEVELS" by (simp add: initial_state_def)
  have 1: "0 < length (heap ?s)" by (simp add: initial_state_def)
  have 2: "set required_cols \<subseteq> set (columns (heap ?s ! 0))"
    by (simp add: initial_state_def scenario_A_def mk_frame_def required_cols_def)
  have 3: "rows (heap ?s ! 0) \<noteq> []" by (simp add: scenario_A_rows)
  have 4: "\<forall>r \<in> set (rows (heap ?s ! 0)).
             known (trophic_levels ?s) r \<and> positive_catch r \<and> is_double (catch_of r)"
    unfolding t by (rule scenario_A_known)
  have 5: "levels_within 2 8 (trophic_levels ?s)"
    unfolding t by (rule levels_within_weaken[OF TROPHIC_LEVELS_within _ max_level_le_8]) simp
  have 6: "list_all normal_catch (rows (heap ?s ! 0))"
    unfolding scenario_A_rows by (simp add: normal_catch_mk_row)
  have 7: "length (rows (heap ?s ! 0)) \<le> 2 ^ 30" unfolding scenario_A_rows by simp
  have 8: "catch_total (rows (heap ?s ! 0)) \<le> 2 powi 1000"
    unfolding scenario_A_catch_total by (rule le_powi_1000) simp
  have l: "length (rows scenario_A) = 3" using scenario_A_rows unfolding r by simp
  have p: "plain_frame scenario_A" by (simp add: scenario_A_def plain_mk_frame)
  from weighted_mean[OF 1 2 scenario_A_plain 3 4] 5 6 7 8
  have "\<exists>q. fst (calculate_mtl (DataFrame_at 0) ?s) = Inr (Finite q)
      \<and> weighted_total (trophic_levels ?s) (rows (heap ?s ! 0)) / catch_total (rows (heap ?s ! 0))
           * (1 - of_nat (2 * length (rows (heap ?s ! 0)) + 2) * unit_roundoff) \<le> q
      \<and> q * (1 - of_nat (2 * length (rows (heap ?s ! 0)) + 3) * unit_roundoff)
           \<le> weighted_total (trophic_levels ?s) (rows (heap ?s ! 0))
                / catch_total (rows (heap ?s ! 0))"
    by blast
  then have "\<exists>q. fst (calculate_mtl (DataFrame_at 0) ?s) = Inr (Finite q)
      \<and> weighted_total TROPHIC_LEVELS (rows scenario_A) / catch_total (rows scenario_A)
           * (1 - 8 * unit_roundoff) \<le> q
      \<and> q * (1 - 9 * unit_roundoff)
           \<le> weighted_total TROPHIC_LEVELS (rows scenario_A) / catch_total (rows scenario_A)"
    unfolding r t l by simp
  moreover have "rows scenario_A \<noteq> []" using 3 unfolding r .
  moreover note p
  moreover have "list_all (\<lambda>r. known TROPHIC_LEVELS r \<and> positive_catch r \<and> is_double (catch_of r))
         (rows scenario_A)" using 4 unfolding r t by (simp add: list_all_iff)
  moreover have "levels_within 2 8 TROPHIC_LEVELS" using 5 unfolding t .
  moreover have "list_all normal_catch (rows scenario_A)" using 6 unfolding r .
  ultimately show ?thesis by blast
qed

text \<open>
  C7: on scenario A the call returns the float \<^verbatim>\<open>3.2\<close>, and so does the expression
  \<^verbatim>\<open>(3.5*100 + 2.8*200 + 4.2*50)/350\<close> evaluated in floats.
\<close>

theorem scenario_A_mtl:
  "fst (calculate_mtl (DataFrame_at 0) (initial_state [scenario_A])) = Inr (float_lit (32 / 10))
   \<and> fdiv (fadd (fadd (fmul (float_lit (35 / 10)) (Finite 100))
                         (fmul (float_lit (28 / 10)) (Finite 200)))
                   (fmul (float_lit (42 / 10)) (Finite 50)))
             (Finite 350)
       = Inr (float_lit (32 / 10))"
  by (rule scenario_A_value)

section \<open>No valid catch\<close>

text \<open>
  C2 as stated fails: in a frame with the rows (Atlantic cod, 0) and (a list, 5) no row
  has a positive catch and a species of the table, yet the call does not fail with the
  error about no valid catch data: hashing the list raises a TypeError first.
\<close>

theorem unhashable_no_valid_catch_counterexample:
  "contributing TROPHIC_LEVELS (rows list_species_frame) = []
   \<and> set required_cols \<subseteq> set (columns list_species_frame)
   \<and> fst (calculate_mtl (DataFrame_at 0) (initial_state [list_species_frame]))
       = Inl unhashable_error
   \<and> unhashable_error \<noteq> no_valid_catch_error"
  by (simp add: calculate_mtl_def initial_state_def list_species_frame_def mk_frame_def
        mk_row_def required_cols_def to_numeric_def setitem_catch_kg_def iterrows_def
        getitem_species_name_def iterrows_loop.simps(2) Let_def
        contributing_def positive_catch_def catch_of_def known_def
        unhashable_error_def no_valid_catch_error_def)

text \<open>
  C2, amended: take a frame with both columns that is plain (neither of the two labels is
  repeated, and every catch cell is a float, a text or an int in the range of a float),
  whose rows with a positive catch have hashable species (strings) and whose catches
  after coercion are floats (binary64 values, infinities and NaN among them). The call
  fails with the error about no valid catch data exactly when no row has both a positive
  catch after coercion and a species in the table, which is exactly when the accumulated
  total is zero. The empty frame, the frame whose catches are all invalid and the frame
  whose species are all unknown are instances.
\<close>

theorem no_valid_catch_iff:
  assumes "a < length (heap s)" "set required_cols \<subseteq> set (columns (heap s ! a))"
    and "plain_frame (heap s ! a)"
    and "hashable_rows (rows (heap s ! a))"
    and "\<forall>r \<in> set (rows (heap s ! a)). is_double (catch_of r)"
  shows "(fst (calculate_mtl (DataFrame_at a) s) = Inl no_valid_catch_error)
           = (contributing (trophic_levels s) (rows (heap s ! a)) = [])
         \<and> feq (foldl fadd (Finite 0)
                  (map catch_of (contributing (trophic_levels s) (rows (heap s ! a)))))
               (Finite 0)
           = (contributing (trophic_levels s) (rows (heap s ! a)) = [])"
proof (cases "contributing (trophic_levels s) (rows (heap s ! a)) = []")
  case True
  then show ?thesis
    unfolding calculate_mtl_hashable[OF assms(1-4)] by (simp add: fst_finish)
next
  case False
  note p = total_catch_pos[OF assms(5) False]
  let ?w = "foldl fadd (Finite 0)
     (map (\<lambda>r. fmul (level_of (trophic_levels s) r) (catch_of r))
        (contributing (trophic_levels s) (rows (heap s ! a))))"
  from pos_fdiv[OF p, of ?w] obtain v where v: "fdiv ?w
     (foldl fadd (Finite 0) (map catch_of (contributing (trophic_levels s) (rows (heap s ! a)))))
     = Inr v" by blast
  show ?thesis
    unfolding calculate_mtl_hashable[OF assms(1-4)] fst_finish
    using pos_not_zero[OF p] False by (simp add: v)
qed


theorem no_valid_catch_iff_witness:
  "plain_frame scenario_C
   \<and> hashable_rows (rows scenario_C)
   \<and> list_all (\<lambda>r. is_double (catch_of r)) (rows scenario_C)
   \<and> contributing TROPHIC_LEVELS (rows scenario_C) = []
   \<and> fst (calculate_mtl (DataFrame_at 0) (initial_state [scenario_C]))
       = Inl no_valid_catch_error"
proof -
  let ?s = "initial_state [scenario_C]"
  have 1: "0 < length (heap ?s)" by (simp add: initial_state_def)
  have 2: "set required_cols \<subseteq> set (columns (heap ?s ! 0))"
    by (simp add: initial_state_def scenario_C_def mk_frame_def required_cols_def)
  have 3: "hashable_rows (rows (heap ?s ! 0))"
    by (simp add: initial_state_def hashable_rows_def scenario_C_def mk_frame_def mk_row_def)
  have 4: "\<forall>r \<in> set (rows (heap ?s ! 0)). is_double (catch_of r)"
    by (simp add: initial_state_def scenario_C_def mk_frame_def mk_row_def catch_of_def
          round_minus_10 round_0)
  have 5: "contributing (trophic_levels ?s) (rows (heap ?s ! 0)) = []"
    by (simp add: initial_state_def scenario_C_def mk_frame_def mk_row_def contributing_def
          positive_catch_def catch_of_def)
  have p: "plain_frame (heap ?s ! 0)"
    by (simp add: initial_state_def scenario_C_def plain_mk_frame)
  from p 3 4 5 no_valid_catch_iff[OF 1 2 p 3 4] show ?thesis
    by (simp add: initial_state_def list_all_iff)
qed

section \<open>The range of the result\<close>

text \<open>
  C9 as stated fails: an infinite catch is positive, the weighted sum and the total are
  both infinite, and the call returns NaN, which lies in no interval.
\<close>

theorem infinite_catch_counterexample:
  "fst (calculate_mtl (DataFrame_at 0) (initial_state [inf_frame])) = Inr NaN
   \<and> \<not> fle (float_lit (25 / 10)) NaN \<and> \<not> fle NaN (float_lit (44 / 10))"
proof -
  let ?s = "initial_state [inf_frame]"
  let ?r = "\<lparr>species_name = Str ''Atlantic cod'', catch_kg = Number PInf\<rparr>"
  have 1: "0 < length (heap ?s)" by (simp add: initial_state_def)
  have 2: "set required_cols \<subseteq> set (columns (heap ?s ! 0))"
    by (simp add: initial_state_def inf_frame_def mk_frame_def required_cols_def)
  have rs: "rows (heap ?s ! 0) = [?r]"
    by (simp add: initial_state_def inf_frame_def mk_frame_def)
  have 3: "hashable_rows (rows (heap ?s ! 0))" unfolding rs by (simp add: hashable_rows_def)
  have pl: "plain_frame (heap ?s ! 0)"
    by (simp add: initial_state_def inf_frame_def plain_mk_frame)
  have tls: "trophic_levels ?s = TROPHIC_LEVELS" by (simp add: initial_state_def)
  have c: "contributing TROPHIC_LEVELS [?r] = [?r]"
    by (simp add: contributing_def known_def known_scenario_A positive_catch_def catch_of_def)
  have "fst (calculate_mtl (DataFrame_at 0) ?s) = Inr NaN"
    unfolding calculate_mtl_hashable[OF 1 2 pl 3] fst_finish rs tls c
    by (simp add: catch_of_def level_of_def known_scenario_A float_lit_35 signed_inf_def)
  then show ?thesis by simp
qed


text \<open>
  C9, amended: the levels of the table lie between 2.5 and \<open>4.4 * (1 + 2 ^ -53)\<close>, the
  literal 4.4 being rounded to a float. When the call returns a value and the rows that
  contribute (positive catch, known species) number at most \<open>2 ^ 30\<close>, each with a finite
  catch of at least \<open>2 ^ -1022\<close>, the catches summing to at most \<open>2 ^ 1000\<close>, then the
  value \<open>q\<close> is finite and lies between 2.5 and 4.4 up to the rounding of the float
  operations: \<open>2.5 * (1 - (2 n + 2) * 2 ^ -53) \<le> q\<close> and \<open>q * (1 - (2 n + 3) * 2 ^ -53) \<le> 4.4\<close>
  for \<open>n\<close> contributing rows; in particular it lies between 1 and 5.
\<close>

theorem mtl_within_range:
  assumes "a < length (heap s)" "set required_cols \<subseteq> set (columns (heap s ! a))"
    and "trophic_levels s = TROPHIC_LEVELS"
    and "fst (calculate_mtl (DataFrame_at a) s) = Inr v"
    and "\<forall>r \<in> set (contributing TROPHIC_LEVELS (rows (heap s ! a))). normal_catch r"
    and "length (contributing TROPHIC_LEVELS (rows (heap s ! a))) \<le> 2 ^ 30"
    and "catch_total (contributing TROPHIC_LEVELS (rows (heap s ! a))) \<le> 2 powi 1000"
  shows "levels_within (5 / 2) max_level TROPHIC_LEVELS
     \<and> (\<exists>q. v = Finite q
          \<and> 5 / 2 * (1 - of_nat (2 * length (contributing TROPHIC_LEVELS (rows (heap s ! a))) + 2)
                          * unit_roundoff) \<le> q
          \<and> q * (1 - of_nat (2 * length (contributing TROPHIC_LEVELS (rows (heap s ! a))) + 3)
                       * unit_roundoff) \<le> 22 / 5
          \<and> 1 \<le> q \<and> q \<le> 5)"
proof -
  define rs where "rs = contributing TROPHIC_LEVELS (rows (heap s ! a))"
  define n where "n = length rs"
  define u where "u = unit_roundoff"
  define A where "A = (1 + u) ^ (n + 2) / (1 - u) ^ n"
  define B where "B = (1 - u) ^ (n + 2) / (1 + u) ^ n"
  define m where "m = weighted_total TROPHIC_LEVELS rs / catch_total rs"
  note lv = TROPHIC_LEVELS_within
  have h: "hashable_rows (rows (heap s ! a))" using assms(1,2,4) by (rule returns_imp_hashable)
  have pl: "plain_frame (heap s ! a)" using assms(1,2,4) by (rule returns_imp_plain)
  have kn: "\<forall>r \<in> set rs. known TROPHIC_LEVELS r \<and> normal_catch r"
    using assms(5) by (auto simp: rs_def contributing_def)
  have ne: "rs \<noteq> []"
  proof
    assume "rs = []"
    then have "fst (calculate_mtl (DataFrame_at a) s) = Inl no_valid_catch_error"
      unfolding calculate_mtl_hashable[OF assms(1,2) pl h] fst_finish assms(3) rs_def by simp
    with assms(4) show False by simp
  qed
  have n30: "length rs \<le> 2 ^ 30" using assms(6) by (simp add: rs_def)
  have tot: "catch_total rs \<le> 2 powi 1000" using assms(7) by (simp add: rs_def)
  from quotient_accuracy[OF lv _ max_level_le_8 kn ne n30 tot] obtain q
    where q: "\<not> feq (foldl fadd (Finite 0) (map catch_of rs)) (Finite 0)"
      "fdiv (foldl fadd (Finite 0) (map (\<lambda>r. fmul (level_of TROPHIC_LEVELS r) (catch_of r)) rs))
            (foldl fadd (Finite 0) (map catch_of rs)) = Inr (Finite q)"
      "m * B \<le> q" "q \<le> m * A"
    unfolding m_def A_def B_def n_def u_def by auto
  have "fst (calculate_mtl (DataFrame_at a) s) = Inr (Finite q)"
    unfolding calculate_mtl_hashable[OF assms(1,2) pl h] fst_finish assms(3) rs_def[symmetric]
    using q(1,2) by simp
  with assms(4) have v: "v = Finite q" by simp
  have Sc0: "0 < catch_total rs" using ne kn by (intro catch_total_pos) simp_all
  have mb: "5 / 2 \<le> m" "m \<le> max_level"
    using weighted_total_bounds[OF lv kn] Sc0
    by (simp_all add: m_def pos_le_divide_eq pos_divide_le_eq)
  have nn: "n \<le> 2 ^ 30" using n30 by (simp add: n_def)
  have k: "2 * n + 2 \<le> 2 ^ 32" "2 * n + 3 \<le> 2 ^ 32" using nn by simp_all
  have small: "of_nat (2 * n + 2) * u \<le> 1 / 2 ^ 21" "of_nat (2 * n + 3) * u \<le> 1 / 2 ^ 21"
    unfolding u_def
    by (rule of_nat_unit_roundoff_le[OF k(1)], rule of_nat_unit_roundoff_le[OF k(2)])
  have Bl: "1 - of_nat (2 * n + 2) * u \<le> B" unfolding B_def u_def using nn by (rule ratio_lower)
  have Au: "(1 + u) * A * (1 - of_nat (2 * n + 3) * u) \<le> 1"
    unfolding A_def u_def using nn by (rule ratio_upper)
  define c where "c = 1 - of_nat (2 * n + 3) * u"
  have c0: "0 < c" and c1: "22 / 25 \<le> c" using small(2) by (simp_all add: c_def)
  have B0: "0 \<le> 1 - of_nat (2 * n + 2) * u" using small(1) by simp
  have lo: "5 / 2 * (1 - of_nat (2 * n + 2) * u) \<le> q"
  proof -
    have "5 / 2 * (1 - of_nat (2 * n + 2) * u) \<le> m * B"
      using mb(1) Bl B0 by (intro mult_mono) simp_all
    with q(3) show ?thesis by simp
  qed
  have q0: "0 \<le> q"
  proof -
    have "0 \<le> 5 / 2 * (1 - of_nat (2 * n + 2) * u)" using B0 by simp
    with lo show ?thesis by simp
  qed
  have A0: "0 \<le> A"
    unfolding A_def using unit_roundoff_pos unit_roundoff_less_1 by (simp add: u_def)
  have hi: "q * c \<le> 22 / 5"
  proof -
    have "q * c \<le> m * A * c" using q(4) c0 by (intro mult_right_mono) simp_all
    also have "m * A * c \<le> max_level * A * c"
      using mb(2) A0 c0 by (intro mult_right_mono) simp_all
    also have "\<dots> = 22 / 5 * ((1 + u) * A * c)" by (simp add: max_level_def u_def)
    also have "\<dots> \<le> 22 / 5 * 1" using Au unfolding c_def by (intro mult_left_mono) simp_all
    finally show ?thesis by simp
  qed
  have q1: "1 \<le> q"
  proof -
    have "1 \<le> 5 / 2 * (1 - 1 / 2 ^ 21 :: rat)" by simp
    also have "\<dots> \<le> 5 / 2 * (1 - of_nat (2 * n + 2) * u)"
      using small(1) by (intro mult_left_mono) simp_all
    finally show ?thesis using lo by simp
  qed
  have q5: "q \<le> 5"
  proof -
    have "q * (22 / 25) \<le> q * c" using c1 q0 by (intro mult_left_mono)
    with hi show ?thesis by simp
  qed
  show ?thesis
    using lv v lo hi q1 q5 unfolding c_def n_def rs_def u_def by blast
qed

theorem mtl_within_range_witness:
  "list_all normal_catch (contributing TROPHIC_LEVELS (rows scenario_A))
   \<and> (\<exists>q. fst (calculate_mtl (DataFrame_at 0) (initial_state [scenario_A])) = Inr (Finite q)
         \<and> 1 \<le> q \<and> q \<le> 5)"
proof -
  let ?s = "initial_state [scenario_A]"
  have r: "rows (heap ?s ! 0) = rows scenario_A" by (simp add: initial_state_def)
  have 1: "0 < length (heap ?s)" by (simp add: initial_state_def)
  have 2: "set required_cols \<subseteq> set (columns (heap ?s ! 0))"
    by (simp add: initial_state_def scenario_A_def mk_frame_def required_cols_def)
  have 3: "trophic_levels ?s = TROPHIC_LEVELS" by (simp add: initial_state_def)
  obtain v where 4: "fst (calculate_mtl (DataFrame_at 0) ?s) = Inr v"
    using scenario_A_value by blast
  have 5: "\<forall>r \<in> set (contributing TROPHIC_LEVELS (rows (heap ?s ! 0))). normal_catch r"
    unfolding scenario_A_contributing unfolding scenario_A_rows
    by (simp add: normal_catch_mk_row)
  have 6: "length (contributing TROPHIC_LEVELS (rows (heap ?s ! 0))) \<le> 2 ^ 30"
    unfolding scenario_A_contributing unfolding scenario_A_rows by simp
  have 7: "catch_total (contributing TROPHIC_LEVELS (rows (heap ?s ! 0))) \<le> 2 powi 1000"
    unfolding scenario_A_contributing scenario_A_catch_total by (rule le_powi_1000) simp
  from mtl_within_range[OF 1 2 3 4 5 6 7] 4
  have "\<exists>q. fst (calculate_mtl (DataFrame_at 0) ?s) = Inr (Finite q) \<and> 1 \<le> q \<and> q \<le> 5"
    by auto
  moreover have "list_all normal_catch (contributing TROPHIC_LEVELS (rows scenario_A))"
    using 5 unfolding r by (simp add: list_all_iff)
  ultimately show ?thesis by blast
qed

end
